theory Spec2Isabelle
  imports Main "HOL-Library.Multiset" "HOL-Library.Sublist" "HOL-Library.AList"
begin

section \<open>Timestamps: the part of Go's time package that retention uses\<close>

text \<open>
  \<^verbatim>\<open>retention/policy.go\<close> handles archive timestamps through \<^verbatim>\<open>time.Time\<close>:
  \<^verbatim>\<open>Before\<close>, \<^verbatim>\<open>After\<close>, \<^verbatim>\<open>Year\<close>, \<^verbatim>\<open>Month\<close>, \<^verbatim>\<open>Day\<close>, \<^verbatim>\<open>Weekday\<close>, \<^verbatim>\<open>AddDate\<close>,
  \<^verbatim>\<open>time.Date\<close> and \<^verbatim>\<open>Format("2006-01-02")\<close>. A \<^verbatim>\<open>time.Time\<close> is an instant with a Location,
  and the time package computes its calendar fields from the reading of the wall clock
  of that Location.

  This section has two layers. The first is the calendar arithmetic on wall-clock
  readings: a reading is the number of nanoseconds since 0001-01-01 00:00:00 (the zero
  \<^verbatim>\<open>time.Time\<close>) on the wall clock of a Location. The second layer, in the subsection on
  timestamps with their Location, is \<^verbatim>\<open>time.Time\<close> itself, for Locations whose offset from
  UTC changes; there the period functions are studied as the source writes them, with
  \<^verbatim>\<open>t.Location()\<close>.

  The retention engine further down works on the first layer. Every candidate timestamp
  of a run is produced by the same call \<^verbatim>\<open>utils.ParseDateFromFilename(entryName)\<close>; the
  candidates are taken to carry one Location of constant offset from UTC (as UTC itself
  has). A \<^verbatim>\<open>time.Time\<close> is then determined by its wall-clock reading, comparing instants is
  comparing readings, and the period functions on \<^verbatim>\<open>time.Time\<close> are those on readings
  (lemmas \<open>dailyPeriodFunc_wall\<close> to \<open>weeklyPeriodFunc_wall\<close>). Integers are unbounded; the
  range limits of Go's 64-bit fields are not modelled.

  The calendar is the proleptic Gregorian one, computed as the time package does: by
  400-, 100-, 4- and 1-year cycles (\<^verbatim>\<open>daysSinceEpoch\<close>, \<^verbatim>\<open>absDate\<close>) and the \<^verbatim>\<open>daysBefore\<close>
  table. Day 0 is 0001-01-01, a Monday.
\<close>

type_synonym Time = int

definition nsPerSecond :: int where
  "nsPerSecond = 1000000000"

definition nsPerMinute :: int where
  "nsPerMinute = 60 * nsPerSecond"

definition nsPerHour :: int where
  "nsPerHour = 60 * nsPerMinute"

definition nsPerDay :: int where
  "nsPerDay = 24 * nsPerHour"

definition isLeap :: "int \<Rightarrow> bool" where
  "isLeap year = (year mod 4 = 0 \<and> (year mod 100 \<noteq> 0 \<or> year mod 400 = 0))"

text \<open>\<open>daysBefore ! m\<close> counts the days of a non-leap year before month \<open>m + 1\<close>.\<close>

definition daysBefore :: "int list" where
  "daysBefore = [0, 31, 59, 90, 120, 151, 181, 212, 243, 273, 304, 334, 365]"

text \<open>The number of days from 0001-01-01 to January 1 of \<open>year\<close>.\<close>

definition daysSinceEpoch :: "int \<Rightarrow> int" where
  "daysSinceEpoch year =
     (let y = year - 1;
          n400 = y div 400; y1 = y - 400 * n400;
          n100 = y1 div 100; y2 = y1 - 100 * n100;
          n4 = y2 div 4; y3 = y2 - 4 * n4
      in 146097 * n400 + 36524 * n100 + 1461 * n4 + 365 * y3)"

text \<open>
  The year and the day within the year (from 0) of a day number. The last 100-year cycle
  of a 400-year cycle and the last year of a 4-year cycle are one day longer, hence the
  two corrections \<open>n - n div 4\<close> (Go writes \<^verbatim>\<open>n -= n >> 2\<close>).
\<close>

definition absDate :: "int \<Rightarrow> int \<times> int" where
  "absDate days =
     (let n400 = days div 146097; d1 = days - 146097 * n400;
          n100 = d1 div 36524; n100' = n100 - n100 div 4; d2 = d1 - 36524 * n100';
          n4 = d2 div 1461; d3 = d2 - 1461 * n4;
          n1 = d3 div 365; n1' = n1 - n1 div 4; d4 = d3 - 365 * n1'
      in (400 * n400 + 100 * n100' + 4 * n4 + n1' + 1, d4))"

text \<open>
  Month and day of the month from the day within a non-leap year: the month is estimated
  as if every month had 31 days, which is too low by at most one.
\<close>

definition monthDay :: "int \<Rightarrow> int \<times> int" where
  "monthDay day =
     (let month = day div 31; end' = daysBefore ! nat (month + 1)
      in if day \<ge> end' then (month + 2, day - end' + 1)
         else (month + 1, day - daysBefore ! nat month + 1))"

text \<open>Year, month and day of a day number.\<close>

definition date :: "int \<Rightarrow> int \<times> int \<times> int" where
  "date days =
     (let (year, yday) = absDate days
      in if isLeap year \<and> yday = 31 + 29 - 1 then (year, 2, 29)
         else (let (month, day) = monthDay (if isLeap year \<and> yday > 31 + 29 - 1 then yday - 1 else yday)
               in (year, month, day)))"

definition daysIn :: "int \<Rightarrow> int \<Rightarrow> int" where
  "daysIn m year =
     (if m = 2 \<and> isLeap year then 29 else daysBefore ! nat m - daysBefore ! nat (m - 1))"

definition dateToDays :: "int \<Rightarrow> int \<Rightarrow> int \<Rightarrow> int" where
  "dateToDays year month day =
     daysSinceEpoch year + daysBefore ! nat (month - 1)
       + (if isLeap year \<and> month \<ge> 3 then 1 else 0) + (day - 1)"

text \<open>The accessors of \<^verbatim>\<open>time.Time\<close>. \<^verbatim>\<open>Weekday\<close> counts from Sunday = 0.\<close>

definition absDays :: "Time \<Rightarrow> int" where
  "absDays t = t div nsPerDay"

definition Year :: "Time \<Rightarrow> int" where
  "Year t = (case date (absDays t) of (year, month, day) \<Rightarrow> year)"

definition Month :: "Time \<Rightarrow> int" where
  "Month t = (case date (absDays t) of (year, month, day) \<Rightarrow> month)"

definition Day :: "Time \<Rightarrow> int" where
  "Day t = (case date (absDays t) of (year, month, day) \<Rightarrow> day)"

definition Hour :: "Time \<Rightarrow> int" where
  "Hour t = (t mod nsPerDay) div nsPerHour"

definition Minute :: "Time \<Rightarrow> int" where
  "Minute t = (t mod nsPerHour) div nsPerMinute"

definition Second :: "Time \<Rightarrow> int" where
  "Second t = (t mod nsPerMinute) div nsPerSecond"

definition Nanosecond :: "Time \<Rightarrow> int" where
  "Nanosecond t = t mod nsPerSecond"

definition Monday :: int where
  "Monday = 1"

definition Weekday :: "Time \<Rightarrow> int" where
  "Weekday t = (absDays t + Monday) mod 7"

text \<open>
  \<^verbatim>\<open>time.Date\<close> accepts fields outside their usual ranges and normalises them: the month
  overflows into the year, and day, hour, minute, second and nanosecond are added on
  linearly (October 32 is November 1, day 0 is the last day of the month before).
\<close>

definition Date :: "int \<Rightarrow> int \<Rightarrow> int \<Rightarrow> int \<Rightarrow> int \<Rightarrow> int \<Rightarrow> int \<Rightarrow> Time" where
  "Date year month day hour minute sec nsec =
     (let m = month - 1; year' = year + m div 12; month' = m mod 12 + 1
      in dateToDays year' month' day * nsPerDay
           + hour * nsPerHour + minute * nsPerMinute + sec * nsPerSecond + nsec)"

text \<open>\<^verbatim>\<open>t.AddDate(years, months, days)\<close> rebuilds the date through \<^verbatim>\<open>Date\<close>.\<close>

definition AddDate :: "Time \<Rightarrow> int \<Rightarrow> int \<Rightarrow> int \<Rightarrow> Time" where
  "AddDate t years months days =
     Date (Year t + years) (Month t + months) (Day t + days)
       (Hour t) (Minute t) (Second t) (Nanosecond t)"


definition After :: "Time \<Rightarrow> Time \<Rightarrow> bool" where
  "After t u = (t > u)"

subsection \<open>The calendar functions are inverse to each other\<close>

lemma div_digit: "0 \<le> r \<Longrightarrow> r < n \<Longrightarrow> (n * a + r) div n = (a::int)"
  by (simp add: div_pos_pos_trivial)

lemma mod_digit: "(n * a + r) mod n = r mod (n::int)"
  by simp

lemma mod_top: "0 < x \<Longrightarrow> x \<le> n \<Longrightarrow> (x mod n = 0) = (x = (n::int))"
  by (cases "x = n") (simp_all add: mod_pos_pos_trivial)

lemma absDate_sound:
  assumes "absDate d = (y, k)"
  shows "daysSinceEpoch y + k = d" and "0 \<le> k" and "k < (if isLeap y then 366 else 365)"
proof -
  define a where "a = d div 146097"
  define r1 where "r1 = d - 146097 * a"
  define b0 where "b0 = r1 div 36524"
  define b where "b = b0 - b0 div 4"
  define r2 where "r2 = r1 - 36524 * b"
  define c where "c = r2 div 1461"
  define r3 where "r3 = r2 - 1461 * c"
  define e0 where "e0 = r3 div 365"
  define e where "e = e0 - e0 div 4"
  have r1: "0 \<le> r1" "r1 < 146097" unfolding r1_def a_def by (simp_all add: minus_mult_div_eq_mod)
  have b0: "0 \<le> b0" "b0 \<le> 4" "36524 * b0 \<le> r1" "r1 < 36524 * b0 + 36524" using r1 unfolding b0_def by linarith+
  have b: "0 \<le> b" "b \<le> 3" "b = b0 \<or> (b0 = 4 \<and> b = 3)" using b0(1,2) unfolding b_def by linarith+
  have r2: "0 \<le> r2" "r2 \<le> 36524" "b < 3 \<longrightarrow> r2 < 36524" using r1 b0 b unfolding r2_def by linarith+
  have c: "0 \<le> c" "c \<le> 24" "1461 * c \<le> r2" "r2 < 1461 * c + 1461" using r2(1,2) unfolding c_def by linarith+
  have r3: "0 \<le> r3" "r3 < 1461" "c = 24 \<and> b < 3 \<longrightarrow> r3 < 1460" using c r2 unfolding r3_def by linarith+
  have e0: "0 \<le> e0" "e0 \<le> 4" "365 * e0 \<le> r3" "r3 < 365 * e0 + 365" using r3(1,2) unfolding e0_def by linarith+
  have e: "0 \<le> e" "e \<le> 3" "e = e0 \<or> (e0 = 4 \<and> e = 3)" using e0(1,2) unfolding e_def by linarith+
  have "absDate d = (400 * a + 100 * b + 4 * c + e + 1, r3 - 365 * e)"
    unfolding absDate_def Let_def a_def r1_def b0_def b_def r2_def c_def r3_def e0_def e_def ..
  with assms have y: "y = 400 * a + 100 * b + 4 * c + e + 1" and k: "k = r3 - 365 * e"
    by simp_all
  have "y - 1 = 400 * a + (100 * b + 4 * c + e)" unfolding y by simp
  moreover have "0 \<le> 100 * b + 4 * c + e" "100 * b + 4 * c + e < 400" using b c e by linarith+
  ultimately have d400: "(y - 1) div 400 = a" by (simp only: div_digit)
  have "y - 1 - 400 * a = 100 * b + (4 * c + e)" unfolding y by simp
  moreover have "0 \<le> 4 * c + e" "4 * c + e < 100" using c e by linarith+
  ultimately have d100: "(y - 1 - 400 * a) div 100 = b" by (simp only: div_digit)
  have "y - 1 - 400 * a - 100 * b = 4 * c + e" unfolding y by simp
  moreover have "0 \<le> e" "e < 4" using e by linarith+
  ultimately have d4: "(y - 1 - 400 * a - 100 * b) div 4 = c" by (simp only: div_digit)
  have "daysSinceEpoch y = 146097 * a + 36524 * b + 1461 * c + 365 * e"
    unfolding daysSinceEpoch_def Let_def d400 d100 d4 unfolding y by simp
  then show "daysSinceEpoch y + k = d" unfolding k r3_def r2_def r1_def by simp
  show "0 \<le> k" using e e0 unfolding k by linarith
  have "y = 4 * (100 * a + 25 * b + c) + (e + 1)" unfolding y by simp
  then have "y mod 4 = (e + 1) mod 4" by (simp only: mod_digit)
  moreover have "(e + 1) mod 4 = 0 \<longleftrightarrow> e + 1 = 4" using e(1,2) by (intro mod_top) linarith+
  ultimately have m4: "y mod 4 = 0 \<longleftrightarrow> e = 3" by (simp only:) arith
  have "y = 100 * (4 * a + b) + (4 * c + e + 1)" unfolding y by simp
  then have "y mod 100 = (4 * c + e + 1) mod 100" by (simp only: mod_digit)
  moreover have "(4 * c + e + 1) mod 100 = 0 \<longleftrightarrow> 4 * c + e + 1 = 100" using e(1,2) c(1,2) by (intro mod_top) linarith+
  ultimately have m100: "y mod 100 = 0 \<longleftrightarrow> (c = 24 \<and> e = 3)" using e(1,2) c(1,2) by (simp only:) arith
  have "y = 400 * a + (100 * b + 4 * c + e + 1)" unfolding y by simp
  then have "y mod 400 = (100 * b + 4 * c + e + 1) mod 400" by (simp only: mod_digit)
  moreover have "(100 * b + 4 * c + e + 1) mod 400 = 0 \<longleftrightarrow> 100 * b + 4 * c + e + 1 = 400" using e(1,2) c(1,2) b(1,2) by (intro mod_top) linarith+
  ultimately have m400: "y mod 400 = 0 \<longleftrightarrow> (b = 3 \<and> c = 24 \<and> e = 3)" using e(1,2) c(1,2) b(1,2) by (simp only:) arith
  show "k < (if isLeap y then 366 else 365)"
    unfolding isLeap_def m4 m100 m400 k using e e0 r3 b(1,2) c(1,2) by (simp; linarith)
qed


lemma monthDay_cases:
  assumes "0 \<le> (n::int)" "n < 365"
  obtains q where "n div 31 = q" "q \<in> {0,1,2,3,4,5,6,7,8,9,10,11}"
proof -
  have "0 \<le> n div 31" "n div 31 \<le> 11" using assms by linarith+
  moreover have "\<And>q::int. 0 \<le> q \<Longrightarrow> q \<le> 11 \<Longrightarrow> q \<in> {0,1,2,3,4,5,6,7,8,9,10,11}"
    by simp arith
  ultimately have "n div 31 \<in> {0,1,2,3,4,5,6,7,8,9,10,11}" by blast
  then show ?thesis using that by blast
qed

lemma monthDay_sound:
  assumes "0 \<le> n" "n < 365" "monthDay n = (m, dd)"
  shows "1 \<le> m \<and> m \<le> 12 \<and> 1 \<le> dd \<and> dd \<le> daysBefore ! nat m - daysBefore ! nat (m - 1)
     \<and> daysBefore ! nat (m - 1) + dd - 1 = n"
proof -
  obtain q where q: "n div 31 = q" "q \<in> {0,1,2,3,4,5,6,7,8,9,10,11}"
    using assms(1,2) by (rule monthDay_cases)
  have b: "31 * q \<le> n" "n < 31 * q + 31" using q(1) by linarith+
  from q(2) consider "q = 0" | "q = 1" | "q = 2" | "q = 3" | "q = 4" | "q = 5" | "q = 6"
    | "q = 7" | "q = 8" | "q = 9" | "q = 10" | "q = 11" by blast
  then show ?thesis
    using assms(2,3) b unfolding monthDay_def Let_def q(1)
    by cases (simp_all add: daysBefore_def split: if_splits)
qed

lemma month_in: "1 \<le> m \<Longrightarrow> m \<le> 12 \<Longrightarrow> (m::int) \<in> {1,2,3,4,5,6,7,8,9,10,11,12}"
  by simp arith



lemma month_le2:
  assumes "1 \<le> m" "m \<le> 12" "1 \<le> dd" "dd \<le> daysBefore ! nat m - daysBefore ! nat (m - 1)"
  shows "(m \<le> 2) = (daysBefore ! nat (m - 1) + dd - 1 < 59)"
proof -
  have "m \<in> {1,2,3,4,5,6,7,8,9,10,11,12}" using assms(1,2) by (rule month_in)
  then show ?thesis using assms(3,4) by (auto simp: daysBefore_def)
qed

lemma date_sound:
  assumes "date d = (y, m, dd)"
  shows "1 \<le> m" "m \<le> 12" "1 \<le> dd" "dd \<le> daysIn m y" "dateToDays y m dd = d"
proof -
  obtain y' k where a: "absDate d = (y', k)" by (cases "absDate d")
  note s = absDate_sound[OF a]
  have all: "1 \<le> m \<and> m \<le> 12 \<and> 1 \<le> dd \<and> dd \<le> daysIn m y \<and> dateToDays y m dd = d"
  proof (cases "isLeap y' \<and> k = 59")
    case True
    then have "y = y'" "m = 2" "dd = 29" using assms a by (simp_all add: date_def)
    then show ?thesis using True s by (simp add: daysIn_def dateToDays_def daysBefore_def)
  next
    case False
    define n where "n = (if isLeap y' \<and> k > 59 then k - 1 else k)"
    have n: "0 \<le> n" "n < 365" using s False unfolding n_def by (auto split: if_splits)
    have md: "monthDay n = (m, dd)" and y: "y = y'"
      using assms a False unfolding date_def n_def by (auto split: prod.splits if_splits)
    note t = monthDay_sound[OF n md]
    have le2: "(m \<le> 2) = (n < 59)" using month_le2[of m dd] t by simp
    have "dd \<le> daysIn m y" using t unfolding daysIn_def by (auto simp: daysBefore_def)
    moreover have "dateToDays y m dd = d"
      using t le2 s(1) False unfolding dateToDays_def y n_def by (auto split: if_splits)
    ultimately show ?thesis using t by simp
  qed
  from all show "1 \<le> m" "m \<le> 12" "1 \<le> dd" "dd \<le> daysIn m y" "dateToDays y m dd = d"
    by simp_all
qed


lemma date_fields:
  "1 \<le> Month t" "Month t \<le> 12" "1 \<le> Day t" "Day t \<le> daysIn (Month t) (Year t)"
  "dateToDays (Year t) (Month t) (Day t) = absDays t"
proof -
  obtain y m d where e: "date (absDays t) = (y, m, d)" by (cases "date (absDays t)")
  note s = date_sound[OF e]
  show "1 \<le> Month t" "Month t \<le> 12" "1 \<le> Day t" "Day t \<le> daysIn (Month t) (Year t)"
    "dateToDays (Year t) (Month t) (Day t) = absDays t"
    using s unfolding Year_def Month_def Day_def e by simp_all
qed

lemma Date_month: "1 \<le> m \<Longrightarrow> m \<le> 12 \<Longrightarrow>
  Date y m d h mi s ns = dateToDays y m d * nsPerDay + h * nsPerHour + mi * nsPerMinute + s * nsPerSecond + ns"
proof -
  assume a: "1 \<le> m" "m \<le> 12"
  then have "(m - 1) div 12 = 0" "(m - 1) mod 12 + 1 = m" by simp_all
  then show ?thesis unfolding Date_def Let_def by simp
qed

lemma dateToDays_shift: "dateToDays y m (d + j) = dateToDays y m d + j"
  by (simp add: dateToDays_def)

lemma clock_sum:
  "Hour t * nsPerHour + Minute t * nsPerMinute + Second t * nsPerSecond + Nanosecond t = t mod nsPerDay"
proof -
  have 1: "t mod nsPerMinute = Second t * nsPerSecond + Nanosecond t"
  proof -
    have "nsPerSecond dvd nsPerMinute" by (simp add: nsPerMinute_def)
    then have "t mod nsPerMinute mod nsPerSecond = t mod nsPerSecond" by (rule mod_mod_cancel)
    then show ?thesis unfolding Second_def Nanosecond_def
      using div_mult_mod_eq[of "t mod nsPerMinute" nsPerSecond] by simp
  qed
  have 2: "t mod nsPerHour = Minute t * nsPerMinute + t mod nsPerMinute"
  proof -
    have "nsPerMinute dvd nsPerHour" by (simp add: nsPerHour_def)
    then have "t mod nsPerHour mod nsPerMinute = t mod nsPerMinute" by (rule mod_mod_cancel)
    then show ?thesis unfolding Minute_def
      using div_mult_mod_eq[of "t mod nsPerHour" nsPerMinute] by simp
  qed
  have 3: "t mod nsPerDay = Hour t * nsPerHour + t mod nsPerHour"
  proof -
    have "nsPerHour dvd nsPerDay" by (simp add: nsPerDay_def)
    then have "t mod nsPerDay mod nsPerHour = t mod nsPerHour" by (rule mod_mod_cancel)
    then show ?thesis unfolding Hour_def
      using div_mult_mod_eq[of "t mod nsPerDay" nsPerHour] by simp
  qed
  show ?thesis using 1 2 3 by simp
qed

lemma nsPerDay_pos: "0 < nsPerDay"
  by (simp add: nsPerDay_def nsPerHour_def nsPerMinute_def nsPerSecond_def)

lemma AddDate_days: "AddDate t 0 0 j = t + j * nsPerDay"
proof -
  have "AddDate t 0 0 j = (absDays t + j) * nsPerDay + t mod nsPerDay"
    unfolding AddDate_def using date_fields[of t] clock_sum[of t]
    by (simp add: Date_month dateToDays_shift)
  also have "\<dots> = t + j * nsPerDay"
    unfolding absDays_def using div_mult_mod_eq[of t nsPerDay] by (simp add: algebra_simps)
  finally show ?thesis .
qed

lemma absDays_shift: "absDays (t + j * nsPerDay) = absDays t + j"
  unfolding absDays_def using nsPerDay_pos by simp

lemma Weekday_range: "0 \<le> Weekday t" "Weekday t < 7"
  unfolding Weekday_def by simp_all

lemma mod7_prev: "(x - 1) mod 7 = (x mod 7 + 6) mod (7::int)"
proof -
  have "x + 6 = x - 1 + 7" by simp
  then have "(x mod 7 + 6) mod 7 = (x - 1 + 7) mod 7" by (simp only: mod_add_left_eq)
  also have "\<dots> = (x - 1) mod 7" by (simp only: mod_add_self2)
  finally show ?thesis by simp
qed

lemma mod7_step:
  assumes "0 \<le> w" "w < 7" "w \<noteq> 1"
  shows "((w + 6) mod 7 + 6) mod 7 = (w + 6) mod 7 - (1::int)"
proof -
  have "w = 0 \<or> w = 2 \<or> w = 3 \<or> w = 4 \<or> w = 5 \<or> w = 6" using assms by linarith
  then show ?thesis by auto
qed

lemma absDays_prev: "absDays (AddDate t 0 0 (- 1)) = absDays t - 1"
  using absDays_shift[of t "- 1"] by (simp only: AddDate_days)

lemma Weekday_prev: "Weekday (AddDate t 0 0 (- 1)) = (Weekday t + 6) mod 7"
proof -
  have "absDays t - 1 + Monday = absDays t + Monday - 1" by simp
  then show ?thesis unfolding Weekday_def absDays_prev by (simp only: mod7_prev)
qed

subsection \<open>The period-start functions of determineFilesToKeep\<close>

text \<open>
  The weekly period function steps back one day at a time until it reaches a Monday:
  \<^verbatim>\<open>for weekStart.Weekday() != time.Monday { weekStart = weekStart.AddDate(0, 0, -1) }\<close>.
  The loop ends because each step lowers the distance to the Monday before.
\<close>

function weekStartLoop :: "Time \<Rightarrow> Time" where
  "weekStartLoop weekStart =
     (if Weekday weekStart \<noteq> Monday then weekStartLoop (AddDate weekStart 0 0 (- 1))
      else weekStart)"
  by pat_completeness auto
termination
proof (relation "measure (\<lambda>t. nat ((Weekday t + 6) mod 7))")
  show "wf (measure (\<lambda>t. nat ((Weekday t + 6) mod 7)))" by simp
next
  fix weekStart :: Time
  assume "Weekday weekStart \<noteq> Monday"
  then have s: "((Weekday weekStart + 6) mod 7 + 6) mod 7 = (Weekday weekStart + 6) mod 7 - 1"
    using Weekday_range[of weekStart] unfolding Monday_def by (intro mod7_step)
  have "0 \<le> ((Weekday weekStart + 6) mod 7 + 6) mod 7" by simp
  then have "0 \<le> (Weekday weekStart + 6) mod 7 - 1" unfolding s .
  then show "(AddDate weekStart 0 0 (- 1), weekStart) \<in> measure (\<lambda>t. nat ((Weekday t + 6) mod 7))"
    unfolding in_measure Weekday_prev s by linarith
qed

text \<open>The four anonymous functions passed to \<^verbatim>\<open>getAnchors\<close>, in the order of the source.\<close>

definition dailyStart :: "Time \<Rightarrow> Time" where
  "dailyStart t = Date (Year t) (Month t) (Day t) 0 0 0 0"

definition weeklyStart :: "Time \<Rightarrow> Time" where
  "weeklyStart t =
     (let weekStart = weekStartLoop t
      in Date (Year weekStart) (Month weekStart) (Day weekStart) 0 0 0 0)"

definition monthlyStart :: "Time \<Rightarrow> Time" where
  "monthlyStart t = Date (Year t) (Month t) 1 0 0 0 0"

definition yearlyStart :: "Time \<Rightarrow> Time" where
  "yearlyStart t = Date (Year t) 1 1 0 0 0 0"











subsection \<open>Timestamps with their Location\<close>

text \<open>
  A \<^verbatim>\<open>time.Time\<close> is an instant together with a \<^verbatim>\<open>*Location\<close>, and its accessors read the
  wall clock of that Location. What they and \<^verbatim>\<open>time.Date\<close> use of a Location is the
  method \<^verbatim>\<open>lookup\<close>: for a second of UTC, the offset east of UTC in force and the bounds
  \<open>start \<le> sec < end\<close> of the period in which that offset holds. A Location is modelled
  by these periods: the offset before the first transition, and the transitions in
  ascending order, each with the offset in force from then on. Seconds are counted from
  0001-01-01 00:00:00 UTC and offsets in seconds. \<^verbatim>\<open>time.UTC\<close> and the result of
  \<^verbatim>\<open>time.FixedZone\<close> have no transition.
\<close>

record Location =
  firstOffset :: int
  transitions :: "(int \<times> int) list"

definition alpha :: int where
  "alpha = - (2 ^ 63)"

definition omega :: int where
  "omega = 2 ^ 63 - 1"

fun lookupFrom :: "int \<Rightarrow> int \<Rightarrow> (int \<times> int) list \<Rightarrow> int \<Rightarrow> int \<times> int \<times> int" where
  "lookupFrom offset start [] sec = (offset, start, omega)"
| "lookupFrom offset start ((when, offset') # tx) sec =
     (if sec < when then (offset, start, when) else lookupFrom offset' when tx sec)"

definition lookup :: "Location \<Rightarrow> int \<Rightarrow> int \<times> int \<times> int" where
  "lookup l sec = lookupFrom (firstOffset l) alpha (transitions l) sec"

definition UTC :: Location where
  "UTC = \<lparr>firstOffset = 0, transitions = []\<rparr>"

text \<open>
  The instant \<open>utc\<close> is the number of nanoseconds since 0001-01-01 00:00:00 UTC. \<open>Time_abs\<close> is
  the reading of the wall clock of the Location at that instant (\<^verbatim>\<open>t.abs()\<close>, which adds
  the offset found by \<^verbatim>\<open>lookup\<close>), in nanoseconds; the accessors are the calendar
  functions above at that reading.
\<close>

record ZonedTime =
  utc :: int
  loc :: Location

definition Time_Location :: "ZonedTime \<Rightarrow> Location" where
  "Time_Location t = loc t"

definition Time_abs :: "ZonedTime \<Rightarrow> Time" where
  "Time_abs t = utc t + fst (lookup (loc t) (utc t div nsPerSecond)) * nsPerSecond"

definition Time_Year :: "ZonedTime \<Rightarrow> int" where
  "Time_Year t = Year (Time_abs t)"

definition Time_Month :: "ZonedTime \<Rightarrow> int" where
  "Time_Month t = Month (Time_abs t)"

definition Time_Day :: "ZonedTime \<Rightarrow> int" where
  "Time_Day t = Day (Time_abs t)"

definition Time_Hour :: "ZonedTime \<Rightarrow> int" where
  "Time_Hour t = Hour (Time_abs t)"

definition Time_Minute :: "ZonedTime \<Rightarrow> int" where
  "Time_Minute t = Minute (Time_abs t)"

definition Time_Second :: "ZonedTime \<Rightarrow> int" where
  "Time_Second t = Second (Time_abs t)"

definition Time_Nanosecond :: "ZonedTime \<Rightarrow> int" where
  "Time_Nanosecond t = Nanosecond (Time_abs t)"

definition Time_Weekday :: "ZonedTime \<Rightarrow> int" where
  "Time_Weekday t = Weekday (Time_abs t)"



text \<open>
  \<^verbatim>\<open>time.Date\<close> in a Location. The normalised fields give a wall-clock reading; to find
  the instant, \<^verbatim>\<open>Date\<close> looks up the offset at that reading taken as UTC, and when the
  instant that this offset gives lies outside the period of the offset, it takes the
  offset in force at that instant instead. For a reading that the wall clock skips or
  shows twice, the result is right in one of the two zones of the transition.
\<close>

definition time_Date ::
  "int \<Rightarrow> int \<Rightarrow> int \<Rightarrow> int \<Rightarrow> int \<Rightarrow> int \<Rightarrow> int \<Rightarrow> Location \<Rightarrow> ZonedTime" where
  "time_Date year month day hour minute sec nsec l =
     (let wall = Date year month day hour minute sec nsec;
          unix = wall div nsPerSecond;
          (offset, start, end') = lookup l unix;
          offset' = (if offset \<noteq> 0
                     then (let utc' = unix - offset
                           in if utc' < start \<or> utc' \<ge> end' then fst (lookup l utc') else offset)
                     else offset)
      in \<lparr>utc = wall - offset' * nsPerSecond, loc = l\<rparr>)"

definition Time_AddDate :: "ZonedTime \<Rightarrow> int \<Rightarrow> int \<Rightarrow> int \<Rightarrow> ZonedTime" where
  "Time_AddDate t years months days =
     time_Date (Time_Year t + years) (Time_Month t + months) (Time_Day t + days)
       (Time_Hour t) (Time_Minute t) (Time_Second t) (Time_Nanosecond t) (Time_Location t)"


partial_function (option) weekStartSearch :: "ZonedTime \<Rightarrow> ZonedTime option" where
  "weekStartSearch weekStart =
     (if Time_Weekday weekStart \<noteq> Monday then weekStartSearch (Time_AddDate weekStart 0 0 (- 1))
      else Some weekStart)"

declare weekStartSearch.simps [code]









text \<open>
  A Location whose wall clock skips a whole day, as that of \<^verbatim>\<open>Pacific/Apia\<close> skipped
  2011-12-30: it is ten hours behind UTC until 2011-12-30 10:00:00 UTC and fourteen
  hours ahead from then on.
\<close>

definition skippingZone :: Location where
  "skippingZone =
     \<lparr>firstOffset = - 36000,
      transitions = [(Date 2011 12 30 10 0 0 0 div nsPerSecond, 50400)]\<rparr>"

subsection \<open>In a Location of constant offset the wall clock decides\<close>












text \<open>
  Where the wall clock skips a whole day, the search can run for ever: at noon of the
  day after the gap, a Saturday, \<^verbatim>\<open>AddDate(0, 0, -1)\<close> asks for noon of the skipped day and
  \<^verbatim>\<open>time.Date\<close> answers with the same instant again.
\<close>

lemma weekStartSearch_diverges:
  "weekStartSearch (time_Date 2011 12 31 12 0 0 0 skippingZone) = None"
proof -
  define noon where "noon = time_Date 2011 12 31 12 0 0 0 skippingZone"
  have w: "Time_Weekday noon \<noteq> Monday" unfolding noon_def by code_simp
  have a: "Time_AddDate noon 0 0 (- 1) = noon" unfolding noon_def by code_simp
  have n: "x \<noteq> noon" if "weekStartSearch x = Some y" for x y
  proof (rule weekStartSearch.raw_induct[where P = "\<lambda>x y. x \<noteq> noon", OF _ that])
    fix f x y
    assume ih: "\<And>x y. f x = Some y \<Longrightarrow> x \<noteq> noon"
      and st: "(if Time_Weekday x \<noteq> Monday then f (Time_AddDate x 0 0 (- 1)) else Some x) = Some y"
    show "x \<noteq> noon"
    proof
      assume e: "x = noon"
      have "f (Time_AddDate noon 0 0 (- 1)) = Some y" using st e w by simp
      then have "f noon = Some y" unfolding a .
      then show False using ih by blast
    qed
  qed
  show ?thesis
    using n[of noon] unfolding noon_def
    by (cases "weekStartSearch (time_Date 2011 12 31 12 0 0 0 skippingZone)") auto
qed






section \<open>The retention engine (\<^verbatim>\<open>retention/policy.go\<close>)\<close>

subsection \<open>Data\<close>

record RetentionPolicy =
  Daily :: int
  Weekly :: int
  Monthly :: int
  Yearly :: int

record BackupFile =
  Path :: string
  Time :: Time

text \<open>
  \<^verbatim>\<open>periodStart.Format("2006-01-02")\<close> prints the year, the month and the day of a
  timestamp. The printed key is modelled by these three numbers: two keys are the same
  string exactly when the three numbers agree.
\<close>

definition Format_2006_01_02 :: "Time \<Rightarrow> int \<times> int \<times> int" where
  "Format_2006_01_02 t = (Year t, Month t, Day t)"

subsection \<open>Unspecified orders\<close>

text \<open>
  Two things in \<^verbatim>\<open>policy.go\<close> have no fixed order: \<^verbatim>\<open>sort.Slice\<close> is not stable, so files
  with equal timestamps may come out in any order, and ranging over a Go map visits its
  entries in an order that changes from run to run. Each such place of the code takes a
  reordering of its own, \<open>ch i\<close> for the \<open>i\<close>-th place, which may return any permutation of
  its argument. A statement proved for every family \<open>ch\<close> of permutations holds for every
  run of the program.

  An unstable sort returns some permutation of its input that is sorted; every such
  result is the stable sort of some permutation of the input (of the result itself), so
  \<open>sortByTime\<close> reorders first and then sorts stably. The comparison of the source is
  \<^verbatim>\<open>files[i].Time.Before(files[j].Time)\<close>, ascending by timestamp.
\<close>

type_synonym order_choice = "BackupFile list \<Rightarrow> BackupFile list"

definition permuting :: "(nat \<Rightarrow> order_choice) \<Rightarrow> bool" where
  "permuting ch = (\<forall>i xs. mset (ch i xs) = mset xs)"

definition sortByTime :: "order_choice \<Rightarrow> BackupFile list \<Rightarrow> BackupFile list" where
  "sortByTime perm files = sort_key Time (perm files)"

subsection \<open>getAnchors, getLastN and determineFilesToKeep\<close>

text \<open>
  The map \<^verbatim>\<open>anchors\<close> of \<^verbatim>\<open>getAnchors\<close> is an association list; \<open>anchorStep\<close> is the body
  of the loop over the files: the file replaces the entry of its period when there is
  none or when it is strictly later than the entry.
\<close>

definition anchorStep ::
  "(Time \<Rightarrow> Time) \<Rightarrow> ((int \<times> int \<times> int) \<times> BackupFile) list \<Rightarrow> BackupFile
     \<Rightarrow> ((int \<times> int \<times> int) \<times> BackupFile) list" where
  "anchorStep periodFunc anchors file =
     (let periodStart = periodFunc (Time file);
          periodKey = Format_2006_01_02 periodStart
      in case map_of anchors periodKey of
           None \<Rightarrow> AList.update periodKey file anchors
         | Some existing \<Rightarrow>
             if After (Time file) (Time existing) then AList.update periodKey file anchors
             else anchors)"

definition getAnchors ::
  "order_choice \<Rightarrow> BackupFile list \<Rightarrow> (Time \<Rightarrow> Time) \<Rightarrow> BackupFile list" where
  "getAnchors iter files periodFunc =
     (let anchors = foldl (anchorStep periodFunc) [] files
      in iter (map snd anchors))"

definition getLastN :: "order_choice \<Rightarrow> BackupFile list \<Rightarrow> int \<Rightarrow> BackupFile list" where
  "getLastN perm files n =
     (if n \<le> 0 then []
      else let files' = sortByTime perm files
           in if int (length files') \<le> n then files'
              else drop (length files' - nat n) files')"

text \<open>The loop that fills the map \<^verbatim>\<open>unique\<close>, keyed by path: a later file replaces an earlier one of the same path.\<close>

definition uniqueByPath :: "BackupFile list \<Rightarrow> (string \<times> BackupFile) list" where
  "uniqueByPath toKeep = foldl (\<lambda>unique file. AList.update (Path file) file unique) [] toKeep"

definition determineFilesToKeep ::
  "(nat \<Rightarrow> order_choice) \<Rightarrow> BackupFile list \<Rightarrow> RetentionPolicy \<Rightarrow> BackupFile list" where
  "determineFilesToKeep ch files policy =
     (if length files = 0 then files
      else let files' = sortByTime (ch 0) files;
               dailyAnchors = getAnchors (ch 1) files' dailyStart;
               weeklyAnchors = getAnchors (ch 2) files' weeklyStart;
               monthlyAnchors = getAnchors (ch 3) files' monthlyStart;
               yearlyAnchors = getAnchors (ch 4) files' yearlyStart;
               toKeep = getLastN (ch 5) dailyAnchors (Daily policy)
                 @ getLastN (ch 6) weeklyAnchors (Weekly policy)
                 @ getLastN (ch 7) monthlyAnchors (Monthly policy)
                 @ getLastN (ch 8) yearlyAnchors (Yearly policy);
               unique = uniqueByPath toKeep
           in ch 9 (map snd unique))"

subsection \<open>ApplyRetention and getBackupFiles\<close>

text \<open>
  The directory of the archives is read through \<^verbatim>\<open>os.Stat\<close> and \<^verbatim>\<open>os.ReadDir\<close>: it does not
  exist, it cannot be read, or it lists its entries (\<^verbatim>\<open>entry.Name()\<close> and \<^verbatim>\<open>entry.IsDir()\<close>).
  \<^verbatim>\<open>getBackupFiles\<close> returns the error of \<^verbatim>\<open>os.ReadDir\<close>, which \<^verbatim>\<open>ApplyRetention\<close> wraps.
\<close>

record DirEntry =
  EntryName :: string
  IsDir :: bool

datatype Directory = NotExist | Unreadable | Listing "DirEntry list"

datatype retention_error = ReadDirError | FailedToGetBackupFiles retention_error

text \<open>
  \<^verbatim>\<open>strings.LastIndex(s, ".")\<close> (the index of the last dot, or \<open>-1\<close>),
  \<^verbatim>\<open>strings.HasPrefix\<close>, and \<^verbatim>\<open>filepath.Join\<close> of two path elements: an empty element is
  ignored, the others are joined by the separator. (\<^verbatim>\<open>Join\<close> also cleans the result; the
  paths here are taken to be clean.)
\<close>

definition LastIndex :: "string \<Rightarrow> char \<Rightarrow> int" where
  "LastIndex s c =
     (case dropWhile (\<lambda>x. x \<noteq> c) (rev s) of [] \<Rightarrow> - 1 | x # before \<Rightarrow> int (length before))"

definition HasPrefix :: "string \<Rightarrow> string \<Rightarrow> bool" where
  "HasPrefix s pre = prefix pre s"

definition Join :: "string \<Rightarrow> string \<Rightarrow> string" where
  "Join dir name =
     (if dir = [] then name else if name = [] then dir else dir @ ''/'' @ name)"

text \<open>The entry name without its last extension: \<^verbatim>\<open>entryName[:idx]\<close> when there is a dot.\<close>

definition baseNameOf :: "string \<Rightarrow> string" where
  "baseNameOf entryName =
     (let idx = LastIndex entryName (CHR ''.'')
      in if idx \<noteq> - 1 then take (nat idx) entryName else entryName)"

text \<open>
  The loop of \<^verbatim>\<open>getBackupFiles\<close>. \<^verbatim>\<open>utils.ParseDateFromFilename\<close> is not among the sources
  at hand; it is a parameter, returning \<open>None\<close> where the Go function returns an error.
\<close>

fun getBackupFilesLoop ::
  "(string \<Rightarrow> Time option) \<Rightarrow> string \<Rightarrow> string \<Rightarrow> DirEntry list \<Rightarrow> BackupFile list" where
  "getBackupFilesLoop ParseDateFromFilename dir namePrefix [] = []"
| "getBackupFilesLoop ParseDateFromFilename dir namePrefix (entry # entries) =
     (if IsDir entry then getBackupFilesLoop ParseDateFromFilename dir namePrefix entries
      else let entryName = EntryName entry;
               baseName = baseNameOf entryName
           in if \<not> HasPrefix baseName namePrefix
              then getBackupFilesLoop ParseDateFromFilename dir namePrefix entries
              else let path = Join dir entryName
                   in case ParseDateFromFilename entryName of
                        None \<Rightarrow> getBackupFilesLoop ParseDateFromFilename dir namePrefix entries
                      | Some t \<Rightarrow> \<lparr>Path = path, Time = t\<rparr>
                          # getBackupFilesLoop ParseDateFromFilename dir namePrefix entries)"

definition getBackupFiles ::
  "(string \<Rightarrow> Time option) \<Rightarrow> Directory \<Rightarrow> string \<Rightarrow> string
     \<Rightarrow> retention_error + BackupFile list" where
  "getBackupFiles ParseDateFromFilename d dir backupName =
     (case d of
        Listing entries \<Rightarrow>
          (let namePrefix = backupName @ ''-''
           in Inr (getBackupFilesLoop ParseDateFromFilename dir namePrefix entries))
      | _ \<Rightarrow> Inl ReadDirError)"

text \<open>
  The deletion loop of \<^verbatim>\<open>ApplyRetention\<close>: a file is kept when some file of \<^verbatim>\<open>toKeep\<close> has
  its path; \<open>filesToRemove\<close> lists the files handed to \<^verbatim>\<open>os.Remove\<close>, in order.
\<close>

definition shouldKeep :: "BackupFile list \<Rightarrow> BackupFile \<Rightarrow> bool" where
  "shouldKeep toKeep file = list_ex (\<lambda>keepFile. Path keepFile = Path file) toKeep"

definition filesToRemove :: "BackupFile list \<Rightarrow> BackupFile list \<Rightarrow> BackupFile list" where
  "filesToRemove files toKeep = filter (\<lambda>file. \<not> shouldKeep toKeep file) files"

text \<open>
  \<^verbatim>\<open>os.Remove(path)\<close> may fail (the code then prints a warning and goes on): \<open>removeOk path\<close>
  tells whether it succeeds, and then the entry of that path leaves the directory.
\<close>

definition removeEntry :: "string \<Rightarrow> DirEntry list \<Rightarrow> string \<Rightarrow> DirEntry list" where
  "removeEntry dir entries path = filter (\<lambda>e. Join dir (EntryName e) \<noteq> path) entries"

definition osRemove :: "(string \<Rightarrow> bool) \<Rightarrow> string \<Rightarrow> Directory \<Rightarrow> string \<Rightarrow> Directory" where
  "osRemove removeOk dir d path =
     (case d of
        Listing entries \<Rightarrow> if removeOk path then Listing (removeEntry dir entries path) else d
      | _ \<Rightarrow> d)"

text \<open>
  \<^verbatim>\<open>ApplyRetention\<close> returns its error and the directory as it is afterwards; \<open>d\<close> is
  the directory at \<^verbatim>\<open>filepath.Join(backupDir, subdirectory)\<close> before.
  \<^verbatim>\<open>determineFilesToKeep\<close> sorts the slice \<^verbatim>\<open>files\<close> in place, so the deletion loop ranges
  over the sorted files.
\<close>

definition ApplyRetention ::
  "(string \<Rightarrow> bool) \<Rightarrow> (nat \<Rightarrow> order_choice) \<Rightarrow> (string \<Rightarrow> Time option) \<Rightarrow> Directory
     \<Rightarrow> string \<Rightarrow> string \<Rightarrow> string \<Rightarrow> RetentionPolicy \<Rightarrow> retention_error option \<times> Directory" where
  "ApplyRetention removeOk ch ParseDateFromFilename d backupDir subdirectory backupName policy =
     (let backupPath = Join backupDir subdirectory
      in if d = NotExist then (None, d)
         else case getBackupFiles ParseDateFromFilename d backupPath backupName of
             Inl err \<Rightarrow> (Some (FailedToGetBackupFiles err), d)
           | Inr files \<Rightarrow>
               if length files = 0 then (None, d)
               else let toKeep = determineFilesToKeep ch files policy;
                        files' = sortByTime (ch 0) files;
                        removed = map Path (filesToRemove files' toKeep)
                    in (None, foldl (osRemove removeOk backupPath) d removed))"

subsection \<open>Notions of the specification\<close>

text \<open>The period-start key of a file under a period function.\<close>

definition periodKey :: "(Time \<Rightarrow> Time) \<Rightarrow> BackupFile \<Rightarrow> int \<times> int \<times> int" where
  "periodKey periodFunc file = Format_2006_01_02 (periodFunc (Time file))"



text \<open>
  A recognised candidate: a non-directory entry whose name without extension starts
  with the backup name and a dash, and whose timestamp parses.
\<close>

definition isCandidate :: "(string \<Rightarrow> Time option) \<Rightarrow> string \<Rightarrow> DirEntry \<Rightarrow> bool" where
  "isCandidate ParseDateFromFilename backupName entry =
     (\<not> IsDir entry \<and> HasPrefix (baseNameOf (EntryName entry)) (backupName @ ''-'')
      \<and> ParseDateFromFilename (EntryName entry) \<noteq> None)"

definition zeroPolicy :: RetentionPolicy where
  "zeroPolicy = \<lparr>Daily = 0, Weekly = 0, Monthly = 0, Yearly = 0\<rparr>"

subsection \<open>Sets used in the proofs\<close>

text \<open>
  \<open>firstOfTime\<close> keeps, of the files of equal timestamp, the one that comes first in the
  list. \<open>anchorSetOf\<close>, \<open>lastSet\<close> and \<open>keepSetOf\<close> are anchors, selection and keep-set on
  sets of files; \<open>anchorInv\<close> is the invariant of the loop of \<open>getAnchors\<close>.
\<close>

definition firstOfTime :: "BackupFile list \<Rightarrow> BackupFile set" where
  "firstOfTime files =
     foldl (\<lambda>R f. if Time f \<in> Time ` R then R else insert f R) {} files"

definition anchorInv ::
  "(Time \<Rightarrow> Time) \<Rightarrow> BackupFile list \<Rightarrow> ((int \<times> int \<times> int) \<times> BackupFile) list \<Rightarrow> bool" where
  "anchorInv pf xs m =
     (distinct (map fst m)
      \<and> (\<forall>k a. map_of m k = Some a \<longrightarrow>
            a \<in> firstOfTime xs \<and> periodKey pf a = k
            \<and> (\<forall>f \<in> set xs. periodKey pf f = k \<longrightarrow> Time f \<le> Time a))
      \<and> (\<forall>f \<in> set xs. map_of m (periodKey pf f) \<noteq> None))"

definition anchorSetOf :: "(Time \<Rightarrow> Time) \<Rightarrow> BackupFile set \<Rightarrow> BackupFile set" where
  "anchorSetOf pf S = {a \<in> S. \<forall>f \<in> S. periodKey pf f = periodKey pf a \<longrightarrow> Time f \<le> Time a}"

definition lastSet :: "BackupFile set \<Rightarrow> int \<Rightarrow> BackupFile set" where
  "lastSet S n = {a \<in> S. int (card {b \<in> S. Time a < Time b}) < n}"

definition keepSetOf :: "BackupFile set \<Rightarrow> RetentionPolicy \<Rightarrow> BackupFile set" where
  "keepSetOf S policy =
     lastSet (anchorSetOf dailyStart S) (Daily policy)
     \<union> lastSet (anchorSetOf weeklyStart S) (Weekly policy)
     \<union> lastSet (anchorSetOf monthlyStart S) (Monthly policy)
     \<union> lastSet (anchorSetOf yearlyStart S) (Yearly policy)"

subsection \<open>Example data\<close>

text \<open>
  Three archives, two of them of the same day, and two policies (the anchor example of
  the specification).
\<close>

definition exampleFiles :: "BackupFile list" where
  "exampleFiles =
     [\<lparr>Path = ''/srv/backups/backup-20240101000000.gz'', Time = Date 2024 1 1 0 0 0 0\<rparr>,
      \<lparr>Path = ''/srv/backups/backup-20240101120000.gz'', Time = Date 2024 1 1 12 0 0 0\<rparr>,
      \<lparr>Path = ''/srv/backups/backup-20240102000000.gz'', Time = Date 2024 1 2 0 0 0 0\<rparr>]"

definition exampleKept :: "BackupFile list" where
  "exampleKept =
     [\<lparr>Path = ''/srv/backups/backup-20240101120000.gz'', Time = Date 2024 1 1 12 0 0 0\<rparr>,
      \<lparr>Path = ''/srv/backups/backup-20240102000000.gz'', Time = Date 2024 1 2 0 0 0 0\<rparr>]"

definition twoDaily :: RetentionPolicy where
  "twoDaily = \<lparr>Daily = 2, Weekly = 0, Monthly = 0, Yearly = 0\<rparr>"

definition oneEach :: RetentionPolicy where
  "oneEach = \<lparr>Daily = 1, Weekly = 1, Monthly = 1, Yearly = 1\<rparr>"

text \<open>
  A directory with the three archives, a file of the same backup whose name holds no
  timestamp, an archive of another backup, and a subdirectory; and a parse function
  that reads the timestamps of the four archive names.
\<close>

definition exampleDir :: "DirEntry list" where
  "exampleDir =
     [\<lparr>EntryName = ''backup-20240101000000.gz'', IsDir = False\<rparr>,
      \<lparr>EntryName = ''backup-20240101120000.gz'', IsDir = False\<rparr>,
      \<lparr>EntryName = ''backup-20240102000000.gz'', IsDir = False\<rparr>,
      \<lparr>EntryName = ''backup-notes.txt'', IsDir = False\<rparr>,
      \<lparr>EntryName = ''other-backup-20240101000000.gz'', IsDir = False\<rparr>,
      \<lparr>EntryName = ''backup-old'', IsDir = True\<rparr>]"

definition exampleParse :: "string \<Rightarrow> Time option" where
  "exampleParse = map_of
     [(''backup-20240101000000.gz'', Date 2024 1 1 0 0 0 0),
      (''backup-20240101120000.gz'', Date 2024 1 1 12 0 0 0),
      (''backup-20240102000000.gz'', Date 2024 1 2 0 0 0 0),
      (''other-backup-20240101000000.gz'', Date 2024 1 1 0 0 0 0)]"

definition exampleLeft :: "DirEntry list" where
  "exampleLeft =
     [\<lparr>EntryName = ''backup-notes.txt'', IsDir = False\<rparr>,
      \<lparr>EntryName = ''other-backup-20240101000000.gz'', IsDir = False\<rparr>,
      \<lparr>EntryName = ''backup-old'', IsDir = True\<rparr>]"

text \<open>
  A directory shared by the backups \<^verbatim>\<open>backup\<close> and \<^verbatim>\<open>backup-db\<close>, with one archive of
  each, and a parse function that returns the timestamps embedded in the two names.
\<close>

definition sharedDir :: "DirEntry list" where
  "sharedDir =
     [\<lparr>EntryName = ''backup-20240105000000.gz'', IsDir = False\<rparr>,
      \<lparr>EntryName = ''backup-db-20240104000000.gz'', IsDir = False\<rparr>]"

definition sharedParse :: "string \<Rightarrow> Time option" where
  "sharedParse = map_of
     [(''backup-20240105000000.gz'', Date 2024 1 5 0 0 0 0),
      (''backup-db-20240104000000.gz'', Date 2024 1 4 0 0 0 0)]"

subsection \<open>The loop of getAnchors\<close>

lemma firstOfTime_snoc:
  "firstOfTime (xs @ [f]) =
     (if Time f \<in> Time ` firstOfTime xs then firstOfTime xs else insert f (firstOfTime xs))"
  by (simp add: firstOfTime_def)

lemma firstOfTime_props:
  "firstOfTime xs \<subseteq> set xs \<and> Time ` firstOfTime xs = Time ` set xs \<and> inj_on Time (firstOfTime xs)"
proof (induction xs rule: rev_induct)
  case Nil
  show ?case by (simp add: firstOfTime_def)
next
  case (snoc f xs)
  then show ?case by (auto simp: firstOfTime_snoc)
qed

lemma firstOfTime_subset: "firstOfTime xs \<subseteq> set xs"
  using firstOfTime_props by blast

lemma firstOfTime_times: "Time ` firstOfTime xs = Time ` set xs"
  using firstOfTime_props by blast

lemma firstOfTime_inj: "inj_on Time (firstOfTime xs)"
  using firstOfTime_props by blast

lemma firstOfTime_inj_on: "inj_on Time (set xs) \<Longrightarrow> firstOfTime xs = set xs"
proof (induction xs rule: rev_induct)
  case Nil
  show ?case by (simp add: firstOfTime_def)
next
  case (snoc f xs)
  have i: "inj_on Time (set xs)" using snoc.prems by (auto simp: inj_on_def)
  have r: "firstOfTime xs = set xs" using snoc.IH[OF i] .
  show ?case
  proof (cases "Time f \<in> Time ` set xs")
    case True
    then obtain g where "g \<in> set xs" "Time g = Time f" by auto
    then have "f \<in> set xs" using snoc.prems by (auto simp: inj_on_def)
    then show ?thesis using True by (auto simp: firstOfTime_snoc r)
  next
    case False
    then show ?thesis by (auto simp: firstOfTime_snoc r)
  qed
qed

lemma periodKey_cong: "Time g = Time f \<Longrightarrow> periodKey pf g = periodKey pf f"
  by (simp add: periodKey_def)

lemma anchorStep_map_of:
  "map_of (anchorStep pf m f) =
     (case map_of m (periodKey pf f) of
        None \<Rightarrow> (map_of m)(periodKey pf f \<mapsto> f)
      | Some e \<Rightarrow> if Time e < Time f then (map_of m)(periodKey pf f \<mapsto> f) else map_of m)"
  by (simp add: anchorStep_def periodKey_def Let_def After_def update_conv' split: option.splits)

lemma anchorStep_distinct:
  "distinct (map fst (anchorStep pf m f)) = distinct (map fst m)"
  by (auto simp: anchorStep_def Let_def update_keys split: option.splits)

lemma anchorInv_step:
  assumes inv: "anchorInv pf xs m"
  shows "anchorInv pf (xs @ [f]) (anchorStep pf m f)"
proof -
  let ?k = "periodKey pf f"
  have d: "distinct (map fst m)"
    and snd: "\<And>k a. map_of m k = Some a \<Longrightarrow>
        a \<in> firstOfTime xs \<and> periodKey pf a = k \<and> (\<forall>g \<in> set xs. periodKey pf g = k \<longrightarrow> Time g \<le> Time a)"
    and tot: "\<And>g. g \<in> set xs \<Longrightarrow> map_of m (periodKey pf g) \<noteq> None"
    using inv unfolding anchorInv_def by blast+
  show ?thesis
  proof (cases "map_of m ?k")
    case None
    have new: "Time f \<notin> Time ` set xs"
    proof
      assume "Time f \<in> Time ` set xs"
      then obtain g where g: "g \<in> set xs" "Time g = Time f" by auto
      then have "periodKey pf g = ?k" by (intro periodKey_cong)
      then show False using tot[OF g(1)] None by simp
    qed
    then have r: "firstOfTime (xs @ [f]) = insert f (firstOfTime xs)"
      by (simp add: firstOfTime_snoc firstOfTime_times)
    have mo: "map_of (anchorStep pf m f) = (map_of m)(?k \<mapsto> f)"
      by (simp add: anchorStep_map_of None)
    have nok: "\<And>g. g \<in> set xs \<Longrightarrow> periodKey pf g \<noteq> ?k" using tot None by metis
    show ?thesis
      unfolding anchorInv_def anchorStep_distinct mo r
      using d snd tot nok by (auto split: if_splits)
  next
    case (Some e)
    note e = snd[OF Some]
    show ?thesis
    proof (cases "Time e < Time f")
      case True
      have new: "Time f \<notin> Time ` set xs"
      proof
        assume "Time f \<in> Time ` set xs"
        then obtain g where g: "g \<in> set xs" "Time g = Time f" by auto
        then have "periodKey pf g = ?k" by (intro periodKey_cong)
        then have "Time g \<le> Time e" using e g(1) by blast
        then show False using True g(2) by simp
      qed
      then have r: "firstOfTime (xs @ [f]) = insert f (firstOfTime xs)"
        by (simp add: firstOfTime_snoc firstOfTime_times)
      have mo: "map_of (anchorStep pf m f) = (map_of m)(?k \<mapsto> f)"
        by (simp add: anchorStep_map_of Some True)
      have le: "\<And>g. g \<in> set xs \<Longrightarrow> periodKey pf g = ?k \<Longrightarrow> Time g \<le> Time f"
        using e True by fastforce
      show ?thesis
        unfolding anchorInv_def anchorStep_distinct mo r
        using d snd tot le by (auto split: if_splits)
    next
      case False
      have mo: "map_of (anchorStep pf m f) = map_of m"
        by (simp add: anchorStep_map_of Some False)
      have sub: "firstOfTime xs \<subseteq> firstOfTime (xs @ [f])"
        by (auto simp: firstOfTime_snoc)
      have fle: "\<And>a. map_of m ?k = Some a \<Longrightarrow> Time f \<le> Time a" using False Some by simp
      have tot': "map_of m ?k \<noteq> None" using Some by simp
      show ?thesis
        unfolding anchorInv_def anchorStep_distinct mo
        using d snd tot sub fle tot' by (auto split: if_splits)
    qed
  qed
qed

lemma anchorInv_foldl: "anchorInv pf xs (foldl (anchorStep pf) [] xs)"
proof (induction xs rule: rev_induct)
  case Nil
  show ?case by (simp add: anchorInv_def)
next
  case (snoc f xs)
  then show ?case by (simp add: anchorInv_step)
qed

lemma anchors_map_set:
  "snd ` set (foldl (anchorStep pf) [] xs) = anchorSetOf pf (firstOfTime xs)"
proof -
  let ?m = "foldl (anchorStep pf) [] xs"
  have inv: "anchorInv pf xs ?m" by (rule anchorInv_foldl)
  then have d: "distinct (map fst ?m)"
    and snd: "\<And>k a. map_of ?m k = Some a \<Longrightarrow>
        a \<in> firstOfTime xs \<and> periodKey pf a = k \<and> (\<forall>g \<in> set xs. periodKey pf g = k \<longrightarrow> Time g \<le> Time a)"
    and tot: "\<And>g. g \<in> set xs \<Longrightarrow> map_of ?m (periodKey pf g) \<noteq> None"
    unfolding anchorInv_def by blast+
  have sub: "firstOfTime xs \<subseteq> set xs" by (rule firstOfTime_subset)
  show ?thesis
  proof (intro set_eqI iffI)
    fix a assume "a \<in> snd ` set ?m"
    then obtain k where "(k, a) \<in> set ?m" by auto
    then have "map_of ?m k = Some a" using d by simp
    from snd[OF this] sub show "a \<in> anchorSetOf pf (firstOfTime xs)"
      unfolding anchorSetOf_def by auto
  next
    fix a assume a: "a \<in> anchorSetOf pf (firstOfTime xs)"
    then have ain: "a \<in> firstOfTime xs"
      and amax: "\<And>f. f \<in> firstOfTime xs \<Longrightarrow> periodKey pf f = periodKey pf a \<Longrightarrow> Time f \<le> Time a"
      unfolding anchorSetOf_def by auto
    have "a \<in> set xs" using ain sub by auto
    then obtain b where b: "map_of ?m (periodKey pf a) = Some b" using tot by blast
    note bs = snd[OF b]
    have "Time a \<le> Time b" using bs \<open>a \<in> set xs\<close> by blast
    moreover have "Time b \<le> Time a" using amax bs by blast
    ultimately have "Time a = Time b" by simp
    then have "a = b" using firstOfTime_inj[of xs] ain bs by (auto dest: inj_onD)
    then have "(periodKey pf a, a) \<in> set ?m" using b by (auto dest: map_of_SomeD)
    then show "a \<in> snd ` set ?m" by force
  qed
qed

lemma anchors_map_keys:
  "map (periodKey pf) (map snd (foldl (anchorStep pf) [] xs)) = map fst (foldl (anchorStep pf) [] xs)"
proof -
  let ?m = "foldl (anchorStep pf) [] xs"
  have inv: "anchorInv pf xs ?m" by (rule anchorInv_foldl)
  then have "\<And>k a. (k, a) \<in> set ?m \<Longrightarrow> periodKey pf a = k"
    unfolding anchorInv_def by (metis map_of_eq_Some_iff)
  then show ?thesis by (auto simp: list_eq_iff_nth_eq)
qed

lemma anchors_map_distinct_keys:
  "distinct (map (periodKey pf) (map snd (foldl (anchorStep pf) [] xs)))"
  unfolding anchors_map_keys using anchorInv_foldl[of pf xs] by (simp add: anchorInv_def)

lemma distinct_map_key_imp:
  "distinct (map (periodKey pf) xs) \<Longrightarrow> distinct (map Time xs)"
  by (induction xs) (auto simp: periodKey_def)

lemma distinct_map_perm:
  "mset ys = mset xs \<Longrightarrow> distinct (map f ys) = distinct (map f xs)"
  by (metis mset_eq_imp_distinct_iff mset_map)

lemma set_getAnchors:
  assumes "\<And>xs. mset (iter xs) = mset xs"
  shows "set (getAnchors iter files pf) = anchorSetOf pf (firstOfTime files)"
proof -
  have "set (getAnchors iter files pf) = set (map snd (foldl (anchorStep pf) [] files))"
    unfolding getAnchors_def Let_def using assms by (metis mset_eq_setD)
  then show ?thesis using anchors_map_set[of pf files] by simp
qed

lemma distinct_keys_getAnchors:
  assumes "\<And>xs. mset (iter xs) = mset xs"
  shows "distinct (map (periodKey pf) (getAnchors iter files pf))"
  unfolding getAnchors_def Let_def
  using distinct_map_perm[OF assms, of "periodKey pf"] anchors_map_distinct_keys by blast

lemma distinct_times_getAnchors:
  assumes "\<And>xs. mset (iter xs) = mset xs"
  shows "distinct (map Time (getAnchors iter files pf))"
  using distinct_keys_getAnchors[OF assms] by (rule distinct_map_key_imp)

lemma getAnchors_nonempty:
  assumes "\<And>xs. mset (iter xs) = mset xs" "files \<noteq> []"
  shows "getAnchors iter files pf \<noteq> []"
proof -
  obtain f where f: "f \<in> set files" using assms(2) by (cases files) auto
  have "anchorInv pf files (foldl (anchorStep pf) [] files)" by (rule anchorInv_foldl)
  then have "map_of (foldl (anchorStep pf) [] files) (periodKey pf f) \<noteq> None"
    using f unfolding anchorInv_def by blast
  then have "foldl (anchorStep pf) [] files \<noteq> []" by auto
  then have "mset (map snd (foldl (anchorStep pf) [] files)) \<noteq> {#}" by simp
  then have "mset (getAnchors iter files pf) \<noteq> {#}"
    unfolding getAnchors_def Let_def using assms(1) by simp
  then show ?thesis by simp
qed



subsection \<open>getLastN\<close>

lemma sorted_wrt_time_distinct:
  "sorted_wrt (\<lambda>a b. Time a < Time b) s \<Longrightarrow> distinct s"
  by (induction s) auto

lemma set_drop_sorted:
  "sorted_wrt (\<lambda>a b. Time a < Time b) s \<Longrightarrow>
     set (drop k s) = {a \<in> set s. card {b \<in> set s. Time a < Time b} < length s - k}"
proof (induction s arbitrary: k)
  case Nil
  show ?case by simp
next
  case (Cons x s)
  have lt: "\<And>y. y \<in> set s \<Longrightarrow> Time x < Time y" and srt: "sorted_wrt (\<lambda>a b. Time a < Time b) s"
    using Cons.prems by auto
  have ds: "distinct s" using srt by (rule sorted_wrt_time_distinct)
  have xs: "x \<notin> set s" using lt by fastforce
  have cx: "{b \<in> set (x # s). Time x < Time b} = set s" using lt by auto
  have ca: "\<And>a. a \<in> set s \<Longrightarrow> {b \<in> set (x # s). Time a < Time b} = {b \<in> set s. Time a < Time b}"
    using lt by fastforce
  have cardx: "card {b \<in> set (x # s). Time x < Time b} = length s"
    unfolding cx using ds by (simp add: distinct_card)
  have all: "\<And>a. a \<in> set s \<Longrightarrow> card {b \<in> set s. Time a < Time b} < length s"
  proof -
    fix a assume a: "a \<in> set s"
    have "{b \<in> set s. Time a < Time b} \<subseteq> set s - {a}" by auto
    then have "card {b \<in> set s. Time a < Time b} \<le> card (set s - {a})"
      by (intro card_mono) auto
    also have "\<dots> < card (set s)" using a by (intro card_Diff1_less) auto
    also have "\<dots> = length s" using ds by (simp add: distinct_card)
    finally show "card {b \<in> set s. Time a < Time b} < length s" .
  qed
  show ?case
  proof (cases k)
    case 0
    show ?thesis
    proof (intro set_eqI iffI)
      fix a assume "a \<in> set (drop k (x # s))"
      then have "a = x \<or> a \<in> set s" using 0 by auto
      then show "a \<in> {a \<in> set (x # s). card {b \<in> set (x # s). Time a < Time b} < length (x # s) - k}"
        using 0 cardx ca all by (auto simp: less_Suc_eq)
    next
      fix a assume "a \<in> {a \<in> set (x # s). card {b \<in> set (x # s). Time a < Time b} < length (x # s) - k}"
      then show "a \<in> set (drop k (x # s))" using 0 by simp
    qed
  next
    case (Suc k')
    have "set (drop k (x # s)) = {a \<in> set s. card {b \<in> set s. Time a < Time b} < length s - k'}"
      using Cons.IH[OF srt, of k'] Suc by simp
    also have "\<dots> = {a \<in> set (x # s). card {b \<in> set (x # s). Time a < Time b} < length (x # s) - k}"
      using Suc cardx ca by auto
    finally show ?thesis .
  qed
qed

lemma sorted_wrt_sortByTime:
  assumes "mset (perm A) = mset A" "distinct (map Time A)"
  shows "sorted_wrt (\<lambda>a b. Time a < Time b) (sortByTime perm A)"
proof -
  have "distinct (map Time (perm A))"
    using distinct_map_perm[OF assms(1), of Time] assms(2) by simp
  moreover have "mset (sort_key Time (perm A)) = mset (perm A)" by simp
  ultimately have "distinct (map Time (sortByTime perm A))"
    unfolding sortByTime_def using distinct_map_perm[of "sort_key Time (perm A)" "perm A" Time] by simp
  moreover have "sorted (map Time (sortByTime perm A))" unfolding sortByTime_def by simp
  ultimately have "sorted_wrt (<) (map Time (sortByTime perm A))"
    by (simp add: strict_sorted_iff)
  then show ?thesis by (simp add: sorted_wrt_map)
qed

lemma set_sortByTime: "mset (perm A) = mset A \<Longrightarrow> set (sortByTime perm A) = set A"
  unfolding sortByTime_def using mset_eq_setD[of "perm A" A] by simp

lemma length_sortByTime: "mset (perm A) = mset A \<Longrightarrow> length (sortByTime perm A) = length A"
  unfolding sortByTime_def using mset_eq_length[of "perm A" A] by simp

lemma getLastN_drop:
  "0 < n \<Longrightarrow> getLastN perm A n = drop (length (sortByTime perm A) - nat n) (sortByTime perm A)"
  by (simp add: getLastN_def Let_def)

lemma set_getLastN:
  assumes p: "mset (perm A) = mset A" and d: "distinct (map Time A)"
  shows "set (getLastN perm A n) = lastSet (set A) n"
proof (cases "0 < n")
  case False
  then show ?thesis by (simp add: getLastN_def lastSet_def)
next
  case True
  let ?s = "sortByTime perm A"
  have srt: "sorted_wrt (\<lambda>a b. Time a < Time b) ?s" using p d by (rule sorted_wrt_sortByTime)
  have ss: "set ?s = set A" using p by (rule set_sortByTime)
  have ds: "distinct ?s" using srt by (rule sorted_wrt_time_distinct)
  have all: "\<And>a. a \<in> set ?s \<Longrightarrow> card {b \<in> set ?s. Time a < Time b} < length ?s"
  proof -
    fix a assume a: "a \<in> set ?s"
    have "{b \<in> set ?s. Time a < Time b} \<subseteq> set ?s - {a}" by auto
    then have "card {b \<in> set ?s. Time a < Time b} \<le> card (set ?s - {a})"
      by (intro card_mono) auto
    also have "\<dots> < card (set ?s)" using a by (intro card_Diff1_less) auto
    also have "\<dots> = length ?s" using ds by (simp add: distinct_card)
    finally show "card {b \<in> set ?s. Time a < Time b} < length ?s" .
  qed
  have "set (getLastN perm A n)
      = {a \<in> set ?s. card {b \<in> set ?s. Time a < Time b} < length ?s - (length ?s - nat n)}"
    unfolding getLastN_drop[OF True] using srt by (rule set_drop_sorted)
  also have "\<dots> = {a \<in> set ?s. int (card {b \<in> set ?s. Time a < Time b}) < n}"
  proof (intro Collect_cong conj_cong refl)
    fix a assume "a \<in> set ?s"
    from all[OF this] True
    show "(card {b \<in> set ?s. Time a < Time b} < length ?s - (length ?s - nat n))
        = (int (card {b \<in> set ?s. Time a < Time b}) < n)"
      by linarith
  qed
  finally show ?thesis unfolding ss lastSet_def .
qed

lemma length_getLastN: "int (length (getLastN perm A n)) \<le> max 0 n"
  by (simp add: getLastN_def Let_def)

lemma getLastN_nonempty:
  "mset (perm A) = mset A \<Longrightarrow> A \<noteq> [] \<Longrightarrow> 0 < n \<Longrightarrow> getLastN perm A n \<noteq> []"
  using length_sortByTime[of perm A] by (auto simp: getLastN_def Let_def)

lemma set_getLastN_subset: "mset (perm A) = mset A \<Longrightarrow> set (getLastN perm A n) \<subseteq> set A"
  using set_sortByTime[of perm A] by (auto simp: getLastN_def Let_def dest: in_set_dropD)



subsection \<open>The keep-set\<close>

lemma permutingD: "permuting ch \<Longrightarrow> mset (ch i xs) = mset xs"
  by (simp add: permuting_def)

lemma uniqueByPath_snoc:
  "uniqueByPath (xs @ [f]) = AList.update (Path f) f (uniqueByPath xs)"
  by (simp add: uniqueByPath_def)

lemma unique_inv:
  "distinct (map fst (uniqueByPath xs))
   \<and> (\<forall>k v. map_of (uniqueByPath xs) k = Some v \<longrightarrow> Path v = k \<and> v \<in> set xs)
   \<and> (\<forall>f \<in> set xs. map_of (uniqueByPath xs) (Path f) \<noteq> None)"
proof (induction xs rule: rev_induct)
  case Nil
  show ?case by (simp add: uniqueByPath_def)
next
  case (snoc f xs)
  then show ?case
    unfolding uniqueByPath_snoc by (auto simp: update_conv' distinct_update)
qed

lemma dedupe_props:
  assumes "mset (iter (map snd (uniqueByPath xs))) = mset (map snd (uniqueByPath xs))"
  shows "set (iter (map snd (uniqueByPath xs))) \<subseteq> set xs"
    and "Path ` set (iter (map snd (uniqueByPath xs))) = Path ` set xs"
    and "distinct (map Path (iter (map snd (uniqueByPath xs))))"
proof -
  let ?u = "uniqueByPath xs"
  have d: "distinct (map fst ?u)"
    and v: "\<And>k v. map_of ?u k = Some v \<Longrightarrow> Path v = k \<and> v \<in> set xs"
    and t: "\<And>f. f \<in> set xs \<Longrightarrow> map_of ?u (Path f) \<noteq> None"
    using unique_inv[of xs] by blast+
  have e: "\<And>k a. (k, a) \<in> set ?u \<Longrightarrow> Path a = k \<and> a \<in> set xs"
    using v d by simp
  have s: "set (iter (map snd ?u)) = snd ` set ?u" using mset_eq_setD[OF assms] by simp
  show sub: "set (iter (map snd ?u)) \<subseteq> set xs" unfolding s using e by auto
  show "Path ` set (iter (map snd ?u)) = Path ` set xs"
  proof (intro equalityI subsetI)
    fix p assume "p \<in> Path ` set (iter (map snd ?u))"
    then show "p \<in> Path ` set xs" using sub by auto
  next
    fix p assume "p \<in> Path ` set xs"
    then obtain f where f: "f \<in> set xs" "p = Path f" by auto
    then obtain a where a: "map_of ?u (Path f) = Some a" using t by blast
    then have "(Path f, a) \<in> set ?u" by (rule map_of_SomeD)
    then have "a \<in> snd ` set ?u" by force
    moreover have "Path a = p" using v[OF a] f by simp
    ultimately show "p \<in> Path ` set (iter (map snd ?u))" unfolding s by blast
  qed
  have "map Path (map snd ?u) = map fst ?u" using e by (auto simp: list_eq_iff_nth_eq)
  then have "distinct (map Path (map snd ?u))" using d by (simp only:)
  then show "distinct (map Path (iter (map snd ?u)))"
    using distinct_map_perm[OF assms, of Path] by simp
qed

lemma toKeep_set:
  assumes ch: "permuting ch"
  shows "set (getLastN (ch j) (getAnchors (ch i) s pf) n) = lastSet (anchorSetOf pf (firstOfTime s)) n"
proof -
  have i: "\<And>xs. mset (ch i xs) = mset xs" using ch by (simp add: permutingD)
  have "set (getLastN (ch j) (getAnchors (ch i) s pf) n) = lastSet (set (getAnchors (ch i) s pf)) n"
    using permutingD[OF ch] distinct_times_getAnchors[OF i] by (intro set_getLastN)
  then show ?thesis unfolding set_getAnchors[OF i] .
qed

lemma determineFilesToKeep_char:
  fixes files :: "BackupFile list"
  assumes ch: "permuting ch"
  defines "R \<equiv> firstOfTime (sortByTime (ch 0) files)"
  shows "set (determineFilesToKeep ch files policy) \<subseteq> keepSetOf R policy"
    and "Path ` set (determineFilesToKeep ch files policy) = Path ` keepSetOf R policy"
    and "distinct (map Path (determineFilesToKeep ch files policy))"
proof -
  have all: "set (determineFilesToKeep ch files policy) \<subseteq> keepSetOf R policy
    \<and> Path ` set (determineFilesToKeep ch files policy) = Path ` keepSetOf R policy
    \<and> distinct (map Path (determineFilesToKeep ch files policy))"
  proof (cases "files = []")
    case True
    have "ch 0 [] = []" using permutingD[OF ch, of 0 "[]"] by simp
    then have "R = {}" unfolding R_def True by (simp add: sortByTime_def firstOfTime_def)
    then show ?thesis using True
      by (simp add: determineFilesToKeep_def keepSetOf_def lastSet_def anchorSetOf_def)
  next
    case False
    define s where "s = sortByTime (ch 0) files"
    define toKeep where "toKeep = getLastN (ch 5) (getAnchors (ch 1) s dailyStart) (Daily policy)
                 @ getLastN (ch 6) (getAnchors (ch 2) s weeklyStart) (Weekly policy)
                 @ getLastN (ch 7) (getAnchors (ch 3) s monthlyStart) (Monthly policy)
                 @ getLastN (ch 8) (getAnchors (ch 4) s yearlyStart) (Yearly policy)"
    have r: "determineFilesToKeep ch files policy
        = ch 9 (map snd (uniqueByPath toKeep))"
      using False unfolding determineFilesToKeep_def Let_def toKeep_def s_def by simp
    have k: "set toKeep = keepSetOf R policy"
      unfolding toKeep_def keepSetOf_def R_def s_def[symmetric]
      by (simp add: toKeep_set[OF ch] Un_assoc)
    note d = dedupe_props[of "ch 9" toKeep, OF permutingD[OF ch]]
    show ?thesis unfolding r using d k by simp
  qed
  from all show "set (determineFilesToKeep ch files policy) \<subseteq> keepSetOf R policy"
    and "Path ` set (determineFilesToKeep ch files policy) = Path ` keepSetOf R policy"
    and "distinct (map Path (determineFilesToKeep ch files policy))" by simp_all
qed

lemma keep_list:
  assumes ch: "permuting ch" and ne: "files \<noteq> []"
  shows "\<exists>toKeep :: BackupFile list. Path ` set (determineFilesToKeep ch files policy) = Path ` set toKeep
     \<and> int (length toKeep)
         \<le> max 0 (Daily policy) + max 0 (Weekly policy) + max 0 (Monthly policy) + max 0 (Yearly policy)
     \<and> ((0 < Daily policy \<or> 0 < Weekly policy \<or> 0 < Monthly policy \<or> 0 < Yearly policy)
          \<longrightarrow> toKeep \<noteq> [])"
proof -
  define s where "s = sortByTime (ch 0) files"
  define Ld where "Ld = getLastN (ch 5) (getAnchors (ch 1) s dailyStart) (Daily policy)"
  define Lw where "Lw = getLastN (ch 6) (getAnchors (ch 2) s weeklyStart) (Weekly policy)"
  define Lm where "Lm = getLastN (ch 7) (getAnchors (ch 3) s monthlyStart) (Monthly policy)"
  define Ly where "Ly = getLastN (ch 8) (getAnchors (ch 4) s yearlyStart) (Yearly policy)"
  define toKeep where "toKeep = Ld @ Lw @ Lm @ Ly"
  have r: "determineFilesToKeep ch files policy = ch 9 (map snd (uniqueByPath toKeep))"
    using ne unfolding determineFilesToKeep_def Let_def toKeep_def s_def Ld_def Lw_def Lm_def Ly_def
    by simp
  have p: "Path ` set (determineFilesToKeep ch files policy) = Path ` set toKeep"
    unfolding r by (rule dedupe_props(2)[of "ch 9" toKeep, OF permutingD[OF ch]])
  have l: "int (length Ld) \<le> max 0 (Daily policy)" "int (length Lw) \<le> max 0 (Weekly policy)"
    "int (length Lm) \<le> max 0 (Monthly policy)" "int (length Ly) \<le> max 0 (Yearly policy)"
    unfolding Ld_def Lw_def Lm_def Ly_def by (rule length_getLastN)+
  have len: "int (length toKeep)
      \<le> max 0 (Daily policy) + max 0 (Weekly policy) + max 0 (Monthly policy) + max 0 (Yearly policy)"
    unfolding toKeep_def using l by simp
  have sne: "s \<noteq> []"
    using ne length_sortByTime[of "ch 0" files] permutingD[OF ch, of 0 files] unfolding s_def by auto
  have i: "\<And>i xs. mset (ch i xs) = mset xs" using ch by (simp add: permutingD)
  have a: "\<And>i pf. getAnchors (ch i) s pf \<noteq> []" using i sne by (intro getAnchors_nonempty)
  have n: "0 < Daily policy \<Longrightarrow> Ld \<noteq> []" "0 < Weekly policy \<Longrightarrow> Lw \<noteq> []"
    "0 < Monthly policy \<Longrightarrow> Lm \<noteq> []" "0 < Yearly policy \<Longrightarrow> Ly \<noteq> []"
    unfolding Ld_def Lw_def Lm_def Ly_def using i a by (intro getLastN_nonempty; simp)+
  have "(0 < Daily policy \<or> 0 < Weekly policy \<or> 0 < Monthly policy \<or> 0 < Yearly policy)
          \<longrightarrow> toKeep \<noteq> []"
    unfolding toKeep_def using n by auto
  with p len show ?thesis by (intro exI[of _ toKeep] conjI)
qed

lemma firstOfTime_distinct: "distinct (map Time xs) \<Longrightarrow> firstOfTime xs = set xs"
proof (induction xs rule: rev_induct)
  case Nil
  show ?case by (simp add: firstOfTime_def)
next
  case (snoc f xs)
  then show ?case by (auto simp: firstOfTime_snoc)
qed

lemma firstOfTime_sorted_distinct:
  assumes "mset (perm files) = mset files" "distinct (map Time files)"
  shows "firstOfTime (sortByTime perm files) = set files"
proof -
  have "distinct (map Time (perm files))"
    using distinct_map_perm[OF assms(1), of Time] assms(2) by simp
  moreover have "mset (sort_key Time (perm files)) = mset (perm files)" by simp
  ultimately have "distinct (map Time (sortByTime perm files))"
    unfolding sortByTime_def using distinct_map_perm[of "sort_key Time (perm files)" "perm files" Time] by simp
  then show ?thesis using firstOfTime_distinct set_sortByTime[of perm files] assms(1) by simp
qed


lemma keepSetOf_subset: "keepSetOf S policy \<subseteq> S"
  by (auto simp: keepSetOf_def lastSet_def anchorSetOf_def)

lemma determineFilesToKeep_subset:
  assumes ch: "permuting ch"
  shows "set (determineFilesToKeep ch files policy) \<subseteq> set files"
proof -
  have "set (determineFilesToKeep ch files policy) \<subseteq> firstOfTime (sortByTime (ch 0) files)"
    using determineFilesToKeep_char(1)[OF ch, of files policy] keepSetOf_subset by blast
  also have "\<dots> \<subseteq> set (sortByTime (ch 0) files)" by (rule firstOfTime_subset)
  also have "\<dots> = set files" using set_sortByTime[of "ch 0" files] permutingD[OF ch] by simp
  finally show ?thesis .
qed


lemma group_max:
  assumes "finite R" "b \<in> R"
  shows "\<exists>c \<in> anchorSetOf pf R. periodKey pf c = periodKey pf b \<and> Time b \<le> Time c"
proof -
  let ?G = "{f \<in> R. periodKey pf f = periodKey pf b}"
  have fin: "finite (Time ` ?G)" using assms(1) by simp
  have ne: "Time ` ?G \<noteq> {}" using assms(2) by auto
  have "Max (Time ` ?G) \<in> Time ` ?G" using fin ne by (rule Max_in)
  then obtain c where c: "c \<in> ?G" "Time c = Max (Time ` ?G)" by auto
  have "\<And>f. f \<in> ?G \<Longrightarrow> Time f \<le> Time c" unfolding c(2) using fin by (intro Max_ge) auto
  then have "c \<in> anchorSetOf pf R" "Time b \<le> Time c"
    using c(1) assms(2) unfolding anchorSetOf_def by auto
  then show ?thesis using c(1) by blast
qed

lemma lastSet_anchor_mono:
  assumes fin: "finite R" and sub: "K \<subseteq> R" and inj: "inj_on Time K"
    and a: "a \<in> K" "a \<in> lastSet (anchorSetOf pf R) n"
  shows "a \<in> lastSet (anchorSetOf pf K) n"
proof -
  let ?B' = "{b \<in> anchorSetOf pf K. Time a < Time b}"
  let ?B = "{b \<in> anchorSetOf pf R. Time a < Time b}"
  have aR: "a \<in> anchorSetOf pf R" and cnt: "int (card ?B) < n"
    using a(2) unfolding lastSet_def by auto
  have aK: "a \<in> anchorSetOf pf K" using aR a(1) sub unfolding anchorSetOf_def by auto
  define \<phi> where "\<phi> b = (SOME c. c \<in> anchorSetOf pf R \<and> periodKey pf c = periodKey pf b \<and> Time b \<le> Time c)"
    for b
  have \<phi>: "\<And>b. b \<in> R \<Longrightarrow> \<phi> b \<in> anchorSetOf pf R \<and> periodKey pf (\<phi> b) = periodKey pf b \<and> Time b \<le> Time (\<phi> b)"
  proof -
    fix b assume "b \<in> R"
    from group_max[OF fin this, of pf]
    have "\<exists>c. c \<in> anchorSetOf pf R \<and> periodKey pf c = periodKey pf b \<and> Time b \<le> Time c" by blast
    then show "\<phi> b \<in> anchorSetOf pf R \<and> periodKey pf (\<phi> b) = periodKey pf b \<and> Time b \<le> Time (\<phi> b)"
      unfolding \<phi>_def by (rule someI_ex)
  qed
  have B'R: "?B' \<subseteq> R" using sub unfolding anchorSetOf_def by auto
  have img: "\<phi> ` ?B' \<subseteq> ?B"
  proof
    fix c assume "c \<in> \<phi> ` ?B'"
    then obtain b where b: "b \<in> ?B'" "c = \<phi> b" by auto
    then have "b \<in> R" using B'R by auto
    from \<phi>[OF this] b show "c \<in> ?B" by auto
  qed
  have injphi: "inj_on \<phi> ?B'"
  proof (rule inj_onI)
    fix b1 b2 assume b1: "b1 \<in> ?B'" and b2: "b2 \<in> ?B'" and e: "\<phi> b1 = \<phi> b2"
    have "periodKey pf b1 = periodKey pf b2"
      using \<phi>[of b1] \<phi>[of b2] b1 b2 B'R e by (metis subsetD)
    moreover have "b1 \<in> K" "b2 \<in> K" using b1 b2 unfolding anchorSetOf_def by auto
    ultimately have "Time b1 \<le> Time b2" "Time b2 \<le> Time b1"
      using b1 b2 unfolding anchorSetOf_def by auto
    then have "Time b1 = Time b2" by simp
    then show "b1 = b2" using inj \<open>b1 \<in> K\<close> \<open>b2 \<in> K\<close> by (auto dest: inj_onD)
  qed
  have "finite ?B" using fin unfolding anchorSetOf_def by simp
  then have "card ?B' \<le> card ?B" using injphi img by (intro card_inj_on_le[of \<phi>])
  then show ?thesis unfolding lastSet_def using aK cnt by simp
qed

lemma keepSetOf_mono:
  assumes "finite R" "K \<subseteq> R" "inj_on Time K" "a \<in> K" "a \<in> keepSetOf R policy"
  shows "a \<in> keepSetOf K policy"
  using assms(5) lastSet_anchor_mono[OF assms(1,2,3,4)] unfolding keepSetOf_def by blast


lemma determineFilesToKeep_zero:
  assumes "permuting ch"
  shows "determineFilesToKeep ch files zeroPolicy = []"
proof -
  have "ch 9 [] = []" using permutingD[OF assms, of 9 "[]"] by simp
  then show ?thesis
    by (simp add: determineFilesToKeep_def zeroPolicy_def getLastN_def uniqueByPath_def Let_def)
qed

subsection \<open>The deletion loop\<close>

lemma shouldKeep_iff: "shouldKeep toKeep file = (Path file \<in> Path ` set toKeep)"
  unfolding shouldKeep_def list_ex_iff image_iff by metis

lemma filesToRemove_empty:
  "Path ` set files \<subseteq> Path ` set toKeep \<Longrightarrow> filesToRemove files toKeep = []"
  by (auto simp: filesToRemove_def shouldKeep_iff filter_empty_conv)

lemma filesToRemove_nil: "filesToRemove files [] = files"
  by (simp add: filesToRemove_def shouldKeep_def)

lemma filesToRemove_subset: "set (filesToRemove files toKeep) \<subseteq> set files"
  by (auto simp: filesToRemove_def)

lemma Join_inj: "Join dir a = Join dir b \<Longrightarrow> a = b"
  by (auto simp: Join_def split: if_splits)

lemma candidates_paths:
  "Path ` set (getBackupFilesLoop parse dir (backupName @ ''-'') es)
     = {Join dir (EntryName e) | e. e \<in> set es \<and> isCandidate parse backupName e}"
proof (induction es)
  case Nil
  show ?case by simp
next
  case (Cons e es)
  show ?case
  proof (cases "isCandidate parse backupName e")
    case True
    then obtain t where t: "parse (EntryName e) = Some t" unfolding isCandidate_def by auto
    have "Path ` set (getBackupFilesLoop parse dir (backupName @ ''-'') (e # es))
        = insert (Join dir (EntryName e)) (Path ` set (getBackupFilesLoop parse dir (backupName @ ''-'') es))"
      using True t unfolding isCandidate_def by (simp add: Let_def)
    also have "\<dots> = insert (Join dir (EntryName e))
        {Join dir (EntryName e) | e. e \<in> set es \<and> isCandidate parse backupName e}"
      by (simp only: Cons.IH)
    also have "\<dots> = {Join dir (EntryName x) | x. x \<in> set (e # es) \<and> isCandidate parse backupName x}"
      using True by auto
    finally show ?thesis .
  next
    case False
    then have "getBackupFilesLoop parse dir (backupName @ ''-'') (e # es)
        = getBackupFilesLoop parse dir (backupName @ ''-'') es"
      unfolding isCandidate_def by (auto simp: Let_def split: option.splits)
    then have "Path ` set (getBackupFilesLoop parse dir (backupName @ ''-'') (e # es))
        = Path ` set (getBackupFilesLoop parse dir (backupName @ ''-'') es)"
      by (simp only:)
    also have "\<dots> = {Join dir (EntryName e) | e. e \<in> set es \<and> isCandidate parse backupName e}"
      by (rule Cons.IH)
    also have "\<dots> = {Join dir (EntryName x) | x. x \<in> set (e # es) \<and> isCandidate parse backupName x}"
      using False by auto
    finally show ?thesis .
  qed
qed

lemma foldl_osRemove_Listing:
  "\<exists>es'. foldl (osRemove removeOk dir) (Listing es) removed = Listing es' \<and> set es' \<subseteq> set es
     \<and> (\<forall>e \<in> set es. Join dir (EntryName e) \<notin> set removed \<longrightarrow> e \<in> set es')
     \<and> (\<forall>e \<in> set es. Join dir (EntryName e) \<in> set removed \<and> removeOk (Join dir (EntryName e))
            \<longrightarrow> e \<notin> set es')"
proof (induction removed arbitrary: es)
  case Nil
  show ?case by simp
next
  case (Cons q removed)
  show ?case
  proof (cases "removeOk q")
    case True
    let ?es1 = "removeEntry dir es q"
    have s: "osRemove removeOk dir (Listing es) q = Listing ?es1" using True by (simp add: osRemove_def)
    obtain es' where es': "foldl (osRemove removeOk dir) (Listing ?es1) removed = Listing es'"
      "set es' \<subseteq> set ?es1"
      "\<forall>e \<in> set ?es1. Join dir (EntryName e) \<notin> set removed \<longrightarrow> e \<in> set es'"
      "\<forall>e \<in> set ?es1. Join dir (EntryName e) \<in> set removed \<and> removeOk (Join dir (EntryName e))
            \<longrightarrow> e \<notin> set es'"
      using Cons[of ?es1] by blast
    have m: "set ?es1 = {e \<in> set es. Join dir (EntryName e) \<noteq> q}" by (auto simp: removeEntry_def)
    show ?thesis
      using es' True unfolding m by (intro exI[of _ es']) (auto simp: s)
  next
    case False
    then have s: "osRemove removeOk dir (Listing es) q = Listing es" by (simp add: osRemove_def)
    obtain es' where es': "foldl (osRemove removeOk dir) (Listing es) removed = Listing es'"
      "set es' \<subseteq> set es"
      "\<forall>e \<in> set es. Join dir (EntryName e) \<notin> set removed \<longrightarrow> e \<in> set es'"
      "\<forall>e \<in> set es. Join dir (EntryName e) \<in> set removed \<and> removeOk (Join dir (EntryName e))
            \<longrightarrow> e \<notin> set es'"
      using Cons[of es] by blast
    show ?thesis
      using es' False by (intro exI[of _ es']) (auto simp: s)
  qed
qed

lemma ApplyRetention_Listing:
  assumes ch: "permuting ch"
  shows "\<exists>es'. ApplyRetention removeOk ch parse (Listing es) backupDir subdirectory backupName policy
          = (None, Listing es')
     \<and> set es' \<subseteq> set es
     \<and> (\<forall>e \<in> set es.
           Join (Join backupDir subdirectory) (EntryName e)
             \<notin> Path ` set (filesToRemove
                 (sortByTime (ch 0) (getBackupFilesLoop parse (Join backupDir subdirectory) (backupName @ ''-'') es))
                 (determineFilesToKeep ch
                   (getBackupFilesLoop parse (Join backupDir subdirectory) (backupName @ ''-'') es) policy))
           \<longrightarrow> e \<in> set es')
     \<and> (\<forall>e \<in> set es.
           Join (Join backupDir subdirectory) (EntryName e)
             \<in> Path ` set (filesToRemove
                 (sortByTime (ch 0) (getBackupFilesLoop parse (Join backupDir subdirectory) (backupName @ ''-'') es))
                 (determineFilesToKeep ch
                   (getBackupFilesLoop parse (Join backupDir subdirectory) (backupName @ ''-'') es) policy))
           \<and> removeOk (Join (Join backupDir subdirectory) (EntryName e))
           \<longrightarrow> e \<notin> set es')"
proof -
  define dir where "dir = Join backupDir subdirectory"
  define files where "files = getBackupFilesLoop parse dir (backupName @ ''-'') es"
  define removed where "removed = map Path (filesToRemove (sortByTime (ch 0) files)
        (determineFilesToKeep ch files policy))"
  have g: "getBackupFiles parse (Listing es) dir backupName = Inr files"
    by (simp add: getBackupFiles_def files_def)
  have sr: "set removed = Path ` set (filesToRemove (sortByTime (ch 0) files)
        (determineFilesToKeep ch files policy))"
    unfolding removed_def by simp
  show ?thesis
  proof (cases "files = []")
    case True
    have "ch 0 [] = []" using permutingD[OF ch, of 0 "[]"] by simp
    then have "filesToRemove (sortByTime (ch 0) files) (determineFilesToKeep ch files policy) = []"
      using True by (simp add: sortByTime_def filesToRemove_def)
    moreover have "ApplyRetention removeOk ch parse (Listing es) backupDir subdirectory backupName policy
          = (None, Listing es)"
      using True g by (simp add: ApplyRetention_def dir_def[symmetric])
    ultimately show ?thesis
      unfolding dir_def[symmetric] files_def[symmetric] by (intro exI[of _ es]) simp
  next
    case False
    have a: "ApplyRetention removeOk ch parse (Listing es) backupDir subdirectory backupName policy
        = (None, foldl (osRemove removeOk dir) (Listing es) removed)"
      using False g unfolding removed_def
      by (simp add: ApplyRetention_def Let_def dir_def[symmetric])
    show ?thesis
      using foldl_osRemove_Listing[of removeOk dir es removed]
      unfolding a dir_def[symmetric] files_def[symmetric] sr by simp
  qed
qed

lemma ApplyRetention_keeps:
  assumes ch: "permuting ch" and e: "e \<in> set es"
    and no: "\<And>c. EntryName c = EntryName e \<Longrightarrow> \<not> isCandidate parse backupName c"
  shows "Join (Join backupDir subdirectory) (EntryName e)
      \<notin> Path ` set (getBackupFilesLoop parse (Join backupDir subdirectory) (backupName @ ''-'') es)"
    and "\<exists>es'. ApplyRetention removeOk ch parse (Listing es) backupDir subdirectory backupName policy
            = (None, Listing es')
          \<and> e \<in> set es'"
proof -
  define dir where "dir = Join backupDir subdirectory"
  define files where "files = getBackupFilesLoop parse dir (backupName @ ''-'') es"
  have paths: "Path ` set files = {Join dir (EntryName e) | e. e \<in> set es \<and> isCandidate parse backupName e}"
    unfolding files_def by (rule candidates_paths)
  have notin: "Join dir (EntryName e) \<notin> Path ` set files"
  proof
    assume "Join dir (EntryName e) \<in> Path ` set files"
    then obtain c where c: "isCandidate parse backupName c" "Join dir (EntryName e) = Join dir (EntryName c)"
      unfolding paths by auto
    then have "EntryName c = EntryName e" using Join_inj by metis
    then show False using no c(1) by blast
  qed
  then show "Join (Join backupDir subdirectory) (EntryName e)
      \<notin> Path ` set (getBackupFilesLoop parse (Join backupDir subdirectory) (backupName @ ''-'') es)"
    unfolding files_def dir_def .
  have ss: "set (sortByTime (ch 0) files) = set files"
    using set_sortByTime[of "ch 0" files] permutingD[OF ch] by simp
  obtain es' where es': "ApplyRetention removeOk ch parse (Listing es) backupDir subdirectory backupName policy
          = (None, Listing es')"
    and stay: "\<forall>e \<in> set es. Join dir (EntryName e)
             \<notin> Path ` set (filesToRemove (sortByTime (ch 0) files) (determineFilesToKeep ch files policy))
           \<longrightarrow> e \<in> set es'"
    using ApplyRetention_Listing[OF ch, of removeOk parse es backupDir subdirectory backupName policy]
    unfolding dir_def[symmetric] files_def[symmetric] by blast
  have "Path ` set (filesToRemove (sortByTime (ch 0) files) (determineFilesToKeep ch files policy))
        \<subseteq> Path ` set files"
    using filesToRemove_subset ss by fastforce
  then have "Join dir (EntryName e)
      \<notin> Path ` set (filesToRemove (sortByTime (ch 0) files) (determineFilesToKeep ch files policy))"
    using notin by (meson subsetD)
  then have "e \<in> set es'" using stay e by simp
  then show "\<exists>es'. ApplyRetention removeOk ch parse (Listing es) backupDir subdirectory backupName policy
            = (None, Listing es')
          \<and> e \<in> set es'"
    using es' by blast
qed

subsection \<open>The examples, evaluated\<close>

lemma permuting_id: "permuting (\<lambda>i. id)"
  by (simp add: permuting_def)

lemma permuting_rev: "permuting (\<lambda>i. rev)"
  by (simp add: permuting_def)

lemma example_twoDaily: "determineFilesToKeep (\<lambda>i. id) exampleFiles twoDaily = exampleKept"
  by code_simp

lemma example_oneEach:
  "map Path (determineFilesToKeep (\<lambda>i. id) exampleFiles oneEach) = [''/srv/backups/backup-20240102000000.gz'']"
  by code_simp


lemma example_times: "distinct (map Time exampleFiles)"
  by code_simp

lemma example_candidates:
  "getBackupFilesLoop exampleParse (Join ''/srv'' ''backups'') (''backup'' @ ''-'') exampleDir = exampleFiles"
  by code_simp

lemma example_zero:
  "ApplyRetention (\<lambda>p. True) (\<lambda>i. id) exampleParse (Listing exampleDir) ''/srv'' ''backups'' ''backup'' zeroPolicy
     = (None, Listing exampleLeft)"
  by code_simp

lemma example_retention:
  "ApplyRetention (\<lambda>p. True) (\<lambda>i. id) exampleParse (Listing exampleDir) ''/srv'' ''backups'' ''backup'' twoDaily
     = (None, Listing (\<lparr>EntryName = ''backup-20240101120000.gz'', IsDir = False\<rparr>
          # \<lparr>EntryName = ''backup-20240102000000.gz'', IsDir = False\<rparr> # exampleLeft))"
  by code_simp

lemma example_other:
  "\<lparr>EntryName = ''other-backup-20240101000000.gz'', IsDir = False\<rparr> \<in> set exampleDir
   \<and> \<not> HasPrefix (baseNameOf (EntryName \<lparr>EntryName = ''other-backup-20240101000000.gz'', IsDir = False\<rparr>))
         (''backup'' @ ''-'')"
  by code_simp

section \<open>Claims about the retention engine\<close>



text \<open>
  Claim C3. For every non-empty candidate list, the number of distinct paths of the
  keep-set is at most the sum of the four policy counts, each count below zero taken
  as zero; so for a policy of four non-negative counts, as the specification defines a
  policy, it is at most daily + weekly + monthly + yearly. When at least one count is
  positive, the keep-set has at least one path.
\<close>

theorem C3_keep_set_size:
  assumes "permuting ch" and "files \<noteq> []"
  shows "int (card (Path ` set (determineFilesToKeep ch files policy)))
      \<le> max 0 (Daily policy) + max 0 (Weekly policy) + max 0 (Monthly policy) + max 0 (Yearly policy)
    \<and> (0 \<le> Daily policy \<and> 0 \<le> Weekly policy \<and> 0 \<le> Monthly policy \<and> 0 \<le> Yearly policy \<longrightarrow>
         int (card (Path ` set (determineFilesToKeep ch files policy)))
           \<le> Daily policy + Weekly policy + Monthly policy + Yearly policy)
    \<and> (0 < Daily policy \<or> 0 < Weekly policy \<or> 0 < Monthly policy \<or> 0 < Yearly policy \<longrightarrow>
         1 \<le> card (Path ` set (determineFilesToKeep ch files policy)))"
proof -
  obtain toKeep :: "BackupFile list" where p: "Path ` set (determineFilesToKeep ch files policy) = Path ` set toKeep"
    and len: "int (length toKeep)
         \<le> max 0 (Daily policy) + max 0 (Weekly policy) + max 0 (Monthly policy) + max 0 (Yearly policy)"
    and ne: "(0 < Daily policy \<or> 0 < Weekly policy \<or> 0 < Monthly policy \<or> 0 < Yearly policy)
          \<longrightarrow> toKeep \<noteq> []"
    using keep_list[OF assms] by blast
  have "card (Path ` set toKeep) \<le> length toKeep"
    by (metis card_image_le card_length le_trans List.finite_set)
  then have c: "int (card (Path ` set (determineFilesToKeep ch files policy)))
      \<le> max 0 (Daily policy) + max 0 (Weekly policy) + max 0 (Monthly policy) + max 0 (Yearly policy)"
    unfolding p using len by linarith
  have "toKeep \<noteq> [] \<Longrightarrow> 1 \<le> card (Path ` set toKeep)"
    by (simp add: Suc_le_eq card_gt_0_iff)
  then show ?thesis unfolding p using c ne unfolding p by auto
qed

theorem C3_keep_set_size_witness:
  "permuting (\<lambda>i. id) \<and> exampleFiles \<noteq> []
   \<and> int (card (Path ` set (determineFilesToKeep (\<lambda>i. id) exampleFiles twoDaily))) \<le> 2 + 0 + 0 + 0
   \<and> 1 \<le> card (Path ` set (determineFilesToKeep (\<lambda>i. id) exampleFiles twoDaily))"
proof -
  have ne: "exampleFiles \<noteq> []" by (simp add: exampleFiles_def)
  show ?thesis
    using C3_keep_set_size [OF permuting_id ne, of twoDaily] permuting_id ne
    by (simp add: twoDaily_def)
qed




text \<open>
  Claim C5. Retention is idempotent: when the candidates of a second run are the files
  kept by a first run (in any order, \<open>mset files' = mset (determineFilesToKeep ch files policy)\<close>),
  the second run keeps exactly these files and hands no file to \<^verbatim>\<open>os.Remove\<close>, whatever
  the orders \<open>ch\<close> and \<open>ch'\<close> of the two runs.
\<close>

theorem C5_idempotent:
  assumes ch: "permuting ch" and ch': "permuting ch'"
    and again: "mset files' = mset (determineFilesToKeep ch files policy)"
  shows "set (determineFilesToKeep ch' files' policy) = set (determineFilesToKeep ch files policy)
    \<and> filesToRemove (sortByTime (ch' 0) files') (determineFilesToKeep ch' files' policy) = []"
proof -
  define R where "R = firstOfTime (sortByTime (ch 0) files)"
  define K where "K = set (determineFilesToKeep ch files policy)"
  note c = determineFilesToKeep_char[OF ch, of files policy, folded R_def K_def]
  have finR: "finite R" using firstOfTime_subset[of "sortByTime (ch 0) files"] unfolding R_def
    by (meson List.finite_set finite_subset)
  have KR: "K \<subseteq> R" using c(1) keepSetOf_subset by blast
  have injK: "inj_on Time K" using firstOfTime_inj[of "sortByTime (ch 0) files"] KR unfolding R_def
    by (rule inj_on_subset)
  have sK: "set files' = K" unfolding K_def using again by (rule mset_eq_setD)
  have dP: "distinct (map Path files')" using distinct_map_perm[OF again, of Path] c(3) by simp
  have injP: "inj_on Path K" using dP unfolding sK[symmetric] by (simp add: distinct_map)
  have ss: "set (sortByTime (ch' 0) files') = K"
    using set_sortByTime[of "ch' 0" files'] permutingD[OF ch'] sK by simp
  have R': "firstOfTime (sortByTime (ch' 0) files') = K"
    using firstOfTime_inj_on[of "sortByTime (ch' 0) files'"] injK unfolding ss by simp
  note c' = determineFilesToKeep_char[OF ch', of files' policy, unfolded R']
  have "keepSetOf K policy = K"
  proof (intro equalityI subsetI)
    fix a assume "a \<in> keepSetOf K policy"
    then show "a \<in> K" using keepSetOf_subset by blast
  next
    fix a assume a: "a \<in> K"
    then have "a \<in> keepSetOf R policy" using c(1) by blast
    with finR KR injK a show "a \<in> keepSetOf K policy" by (rule keepSetOf_mono)
  qed
  then have sub: "set (determineFilesToKeep ch' files' policy) \<subseteq> K"
    and img: "Path ` set (determineFilesToKeep ch' files' policy) = Path ` K"
    using c'(1,2) by simp_all
  have "K \<subseteq> set (determineFilesToKeep ch' files' policy)"
  proof
    fix a assume a: "a \<in> K"
    then have "Path a \<in> Path ` set (determineFilesToKeep ch' files' policy)" unfolding img by simp
    then obtain b where b: "b \<in> set (determineFilesToKeep ch' files' policy)" "Path b = Path a" by auto
    then have "b = a" using injP a sub by (auto dest: inj_onD)
    then show "a \<in> set (determineFilesToKeep ch' files' policy)" using b(1) by simp
  qed
  then have e: "set (determineFilesToKeep ch' files' policy) = K" using sub by blast
  have "filesToRemove (sortByTime (ch' 0) files') (determineFilesToKeep ch' files' policy) = []"
    by (rule filesToRemove_empty) (simp add: ss e)
  then show ?thesis using e unfolding K_def by simp
qed

theorem C5_idempotent_witness:
  "permuting (\<lambda>i. id) \<and> permuting (\<lambda>i. rev)
   \<and> determineFilesToKeep (\<lambda>i. id) exampleFiles twoDaily = exampleKept
   \<and> set (determineFilesToKeep (\<lambda>i. rev) exampleKept twoDaily) = set exampleKept
   \<and> filesToRemove (sortByTime rev exampleKept) (determineFilesToKeep (\<lambda>i. rev) exampleKept twoDaily) = []"
proof -
  have m: "mset exampleKept = mset (determineFilesToKeep (\<lambda>i. id) exampleFiles twoDaily)"
    by (simp add: example_twoDaily)
  show ?thesis
    using C5_idempotent [OF permuting_id permuting_rev m] permuting_id permuting_rev
    by (simp add: example_twoDaily)
qed

text \<open>
  Claim C6. Under the all-zero policy the keep-set is empty and every recognised
  candidate whose removal succeeds is gone from the directory afterwards. Under any
  policy, an entry whose timestamp does not parse is no candidate, its path is not among
  the candidates' paths, and it is still in the directory afterwards.
\<close>

theorem C6_zero_policy:
  assumes ch: "permuting ch"
  shows "determineFilesToKeep ch files zeroPolicy = []
    \<and> (\<exists>es'. ApplyRetention removeOk ch parse (Listing es) backupDir subdirectory backupName zeroPolicy
            = (None, Listing es')
          \<and> (\<forall>e \<in> set es. isCandidate parse backupName e
                   \<and> removeOk (Join (Join backupDir subdirectory) (EntryName e))
                 \<longrightarrow> e \<notin> set es'))
    \<and> (\<exists>es'. ApplyRetention removeOk ch parse (Listing es) backupDir subdirectory backupName policy
            = (None, Listing es')
          \<and> (\<forall>e \<in> set es. parse (EntryName e) = None
                 \<longrightarrow> \<not> isCandidate parse backupName e
                   \<and> Join (Join backupDir subdirectory) (EntryName e)
                       \<notin> Path ` set (getBackupFilesLoop parse (Join backupDir subdirectory)
                                      (backupName @ ''-'') es)
                   \<and> e \<in> set es'))"
proof -
  define dir where "dir = Join backupDir subdirectory"
  define files where "files = getBackupFilesLoop parse dir (backupName @ ''-'') es"
  have paths: "Path ` set files = {Join dir (EntryName e) | e. e \<in> set es \<and> isCandidate parse backupName e}"
    unfolding files_def by (rule candidates_paths)
  have ss: "set (sortByTime (ch 0) files) = set files"
    using set_sortByTime[of "ch 0" files] permutingD[OF ch] by simp
  have z: "Path ` set (filesToRemove (sortByTime (ch 0) files) (determineFilesToKeep ch files zeroPolicy))
      = Path ` set files"
    by (simp add: determineFilesToKeep_zero[OF ch] filesToRemove_nil ss)
  have zero: "\<exists>es'. ApplyRetention removeOk ch parse (Listing es) backupDir subdirectory backupName zeroPolicy
            = (None, Listing es')
          \<and> (\<forall>e \<in> set es. isCandidate parse backupName e \<and> removeOk (Join dir (EntryName e))
                 \<longrightarrow> e \<notin> set es')"
  proof -
    obtain es' where es': "ApplyRetention removeOk ch parse (Listing es) backupDir subdirectory backupName zeroPolicy
          = (None, Listing es')"
      and gone: "\<forall>e \<in> set es. Join dir (EntryName e) \<in> Path ` set files \<and> removeOk (Join dir (EntryName e))
           \<longrightarrow> e \<notin> set es'"
      using ApplyRetention_Listing[OF ch, of removeOk parse es backupDir subdirectory backupName zeroPolicy]
      unfolding dir_def[symmetric] files_def[symmetric] z by blast
    have "\<And>e. e \<in> set es \<Longrightarrow> isCandidate parse backupName e \<Longrightarrow> Join dir (EntryName e) \<in> Path ` set files"
      unfolding paths by blast
    then show ?thesis using es' gone by (intro exI[of _ es']) simp
  qed
  have unp: "\<And>e. e \<in> set es \<Longrightarrow> parse (EntryName e) = None \<Longrightarrow>
      \<not> isCandidate parse backupName e \<and> Join dir (EntryName e) \<notin> Path ` set files"
  proof -
    fix e assume e: "e \<in> set es" "parse (EntryName e) = None"
    then have n: "\<not> isCandidate parse backupName e" by (simp add: isCandidate_def)
    have "Join dir (EntryName e) \<notin> Path ` set files"
    proof
      assume "Join dir (EntryName e) \<in> Path ` set files"
      then obtain c where c: "c \<in> set es" "isCandidate parse backupName c"
          "Join dir (EntryName e) = Join dir (EntryName c)"
        unfolding paths by auto
      then have "EntryName e = EntryName c" using Join_inj by blast
      then show False using c(2) e(2) by (simp add: isCandidate_def)
    qed
    then show "\<not> isCandidate parse backupName e \<and> Join dir (EntryName e) \<notin> Path ` set files"
      using n by simp
  qed
  have any: "\<exists>es'. ApplyRetention removeOk ch parse (Listing es) backupDir subdirectory backupName policy
            = (None, Listing es')
          \<and> (\<forall>e \<in> set es. parse (EntryName e) = None
                 \<longrightarrow> \<not> isCandidate parse backupName e
                   \<and> Join dir (EntryName e) \<notin> Path ` set files
                   \<and> e \<in> set es')"
  proof -
    obtain es' where es': "ApplyRetention removeOk ch parse (Listing es) backupDir subdirectory backupName policy
          = (None, Listing es')"
      and stay: "\<forall>e \<in> set es. Join dir (EntryName e)
             \<notin> Path ` set (filesToRemove (sortByTime (ch 0) files) (determineFilesToKeep ch files policy))
           \<longrightarrow> e \<in> set es'"
      using ApplyRetention_Listing[OF ch, of removeOk parse es backupDir subdirectory backupName policy]
      unfolding dir_def[symmetric] files_def[symmetric] by blast
    have "Path ` set (filesToRemove (sortByTime (ch 0) files) (determineFilesToKeep ch files policy))
        \<subseteq> Path ` set files"
      using filesToRemove_subset ss by fastforce
    then have "\<And>e. e \<in> set es \<Longrightarrow> Join dir (EntryName e) \<notin> Path ` set files \<Longrightarrow> e \<in> set es'"
      using stay by (meson subsetD)
    then have "\<And>e. e \<in> set es \<Longrightarrow> parse (EntryName e) = None \<Longrightarrow> e \<in> set es'"
      using unp by simp
    then show ?thesis using es' unp by (intro exI[of _ es']) simp
  qed
  show ?thesis
    using determineFilesToKeep_zero[OF ch] zero any unfolding files_def dir_def by blast
qed

theorem C6_zero_policy_witness:
  "permuting (\<lambda>i. id)
   \<and> determineFilesToKeep (\<lambda>i. id) exampleFiles zeroPolicy = []
   \<and> ApplyRetention (\<lambda>p. True) (\<lambda>i. id) exampleParse (Listing exampleDir) ''/srv'' ''backups'' ''backup'' zeroPolicy
       = (None, Listing exampleLeft)
   \<and> (\<exists>es'. ApplyRetention (\<lambda>p. True) (\<lambda>i. id) exampleParse (Listing exampleDir) ''/srv'' ''backups'' ''backup'' twoDaily
         = (None, Listing es')
       \<and> \<lparr>EntryName = ''backup-notes.txt'', IsDir = False\<rparr> \<in> set es')"
proof -
  note t = C6_zero_policy [OF permuting_id, of exampleFiles "\<lambda>p. True" exampleParse exampleDir
      "''/srv''" "''backups''" "''backup''" twoDaily]
  have n: "\<lparr>EntryName = ''backup-notes.txt'', IsDir = False\<rparr> \<in> set exampleDir"
    "exampleParse (EntryName \<lparr>EntryName = ''backup-notes.txt'', IsDir = False\<rparr>) = None"
    by (simp_all add: exampleDir_def exampleParse_def)
  from t n have "\<exists>es'. ApplyRetention (\<lambda>p. True) (\<lambda>i. id) exampleParse (Listing exampleDir) ''/srv'' ''backups'' ''backup'' twoDaily
         = (None, Listing es')
       \<and> \<lparr>EntryName = ''backup-notes.txt'', IsDir = False\<rparr> \<in> set es'"
    by blast
  then show ?thesis using t permuting_id example_zero by blast
qed

text \<open>
  The claim C7 as stated fails in its last part, that the files of every other backup
  name are left unchanged: in a directory shared with the backup \<^verbatim>\<open>backup-db\<close>, retention
  for the name \<^verbatim>\<open>backup\<close> under the policy 1/1/1/1 takes the archive of \<^verbatim>\<open>backup-db\<close> for a
  candidate, since its name starts with \<^verbatim>\<open>backup-\<close>, and removes it as the older of two.
\<close>

theorem C7_counterexample:
  "HasPrefix (baseNameOf ''backup-db-20240104000000.gz'') (''backup-db'' @ ''-'')
   \<and> isCandidate sharedParse ''backup'' \<lparr>EntryName = ''backup-db-20240104000000.gz'', IsDir = False\<rparr>
   \<and> \<lparr>EntryName = ''backup-db-20240104000000.gz'', IsDir = False\<rparr> \<in> set sharedDir
   \<and> ApplyRetention (\<lambda>p. True) (\<lambda>i. id) sharedParse (Listing sharedDir) ''/srv'' ''backups'' ''backup'' oneEach
       = (None, Listing [\<lparr>EntryName = ''backup-20240105000000.gz'', IsDir = False\<rparr>])"
  by code_simp

text \<open>
  Claim C7, amended. An entry whose name without extension does not start with the
  backup name and a dash is no candidate, its path is neither among the candidates'
  paths nor in the keep-set, and it is still in the directory after retention: the
  files of another backup are left unchanged when their names do not start with this
  backup's name and a dash.
\<close>

theorem C7_prefix_isolation:
  assumes ch: "permuting ch" and e: "e \<in> set es"
    and other: "\<not> HasPrefix (baseNameOf (EntryName e)) (backupName @ ''-'')"
  shows "\<not> isCandidate parse backupName e
    \<and> Join (Join backupDir subdirectory) (EntryName e)
        \<notin> Path ` set (getBackupFilesLoop parse (Join backupDir subdirectory) (backupName @ ''-'') es)
    \<and> Join (Join backupDir subdirectory) (EntryName e)
        \<notin> Path ` set (determineFilesToKeep ch
            (getBackupFilesLoop parse (Join backupDir subdirectory) (backupName @ ''-'') es) policy)
    \<and> (\<exists>es'. ApplyRetention removeOk ch parse (Listing es) backupDir subdirectory backupName policy
            = (None, Listing es')
          \<and> e \<in> set es')"
proof -
  have no: "\<And>c. EntryName c = EntryName e \<Longrightarrow> \<not> isCandidate parse backupName c"
    using other by (simp add: isCandidate_def)
  note k = ApplyRetention_keeps(1)[where backupDir = backupDir and subdirectory = subdirectory, OF ch e no]
    ApplyRetention_keeps(2)[where backupDir = backupDir and subdirectory = subdirectory
      and removeOk = removeOk and policy = policy, OF ch e no]
  have "Join (Join backupDir subdirectory) (EntryName e)
        \<notin> Path ` set (determineFilesToKeep ch
            (getBackupFilesLoop parse (Join backupDir subdirectory) (backupName @ ''-'') es) policy)"
    using k(1) determineFilesToKeep_subset[OF ch,
        of "getBackupFilesLoop parse (Join backupDir subdirectory) (backupName @ ''-'') es" policy]
    by blast
  then show ?thesis using no[of e] k by blast
qed

theorem C7_prefix_isolation_witness:
  "permuting (\<lambda>i. id)
   \<and> \<lparr>EntryName = ''other-backup-20240101000000.gz'', IsDir = False\<rparr> \<in> set exampleDir
   \<and> \<not> HasPrefix (baseNameOf (EntryName \<lparr>EntryName = ''other-backup-20240101000000.gz'', IsDir = False\<rparr>))
         (''backup'' @ ''-'')
   \<and> \<not> isCandidate exampleParse ''backup'' \<lparr>EntryName = ''other-backup-20240101000000.gz'', IsDir = False\<rparr>
   \<and> Join (Join ''/srv'' ''backups'') ''other-backup-20240101000000.gz'' \<notin> Path ` set exampleFiles
   \<and> (\<exists>es'. ApplyRetention (\<lambda>p. True) (\<lambda>i. id) exampleParse (Listing exampleDir) ''/srv'' ''backups'' ''backup'' zeroPolicy
         = (None, Listing es')
       \<and> \<lparr>EntryName = ''other-backup-20240101000000.gz'', IsDir = False\<rparr> \<in> set es')"
proof -
  note o = example_other
  note t = C7_prefix_isolation [OF permuting_id conjunct1[OF o] conjunct2[OF o],
      where parse = exampleParse and backupDir = "''/srv''" and subdirectory = "''backups''"
        and policy = zeroPolicy and removeOk = "\<lambda>p. True"]
  show ?thesis using t o permuting_id unfolding example_candidates by simp
qed

text \<open>
  Claim C10. For candidates of pairwise distinct timestamps, the set of paths returned
  by determineFilesToKeep is the same for every permutation \<open>files'\<close> of the candidate
  list and for every two runs \<open>ch\<close> and \<open>ch'\<close>.
\<close>

theorem C10_order_independent:
  assumes "permuting ch" and "permuting ch'"
    and "distinct (map Time files)" and "mset files' = mset files"
  shows "Path ` set (determineFilesToKeep ch files policy)
       = Path ` set (determineFilesToKeep ch' files' policy)"
proof -
  have d': "distinct (map Time files')" using distinct_map_perm[OF assms(4), of Time] assms(3) by simp
  have s: "set files' = set files" using assms(4) by (rule mset_eq_setD)
  have "firstOfTime (sortByTime (ch 0) files) = set files"
    using firstOfTime_sorted_distinct[of "ch 0" files] permutingD[OF assms(1)] assms(3) by simp
  moreover have "firstOfTime (sortByTime (ch' 0) files') = set files"
    using firstOfTime_sorted_distinct[of "ch' 0" files'] permutingD[OF assms(2)] d' s by simp
  ultimately show ?thesis
    using determineFilesToKeep_char(2)[OF assms(1), of files policy]
      determineFilesToKeep_char(2)[OF assms(2), of files' policy] by simp
qed

theorem C10_order_independent_witness:
  "permuting (\<lambda>i. id) \<and> permuting (\<lambda>i. rev) \<and> distinct (map Time exampleFiles)
   \<and> mset (rev exampleFiles) = mset exampleFiles
   \<and> Path ` set (determineFilesToKeep (\<lambda>i. id) exampleFiles twoDaily)
       = Path ` set (determineFilesToKeep (\<lambda>i. rev) (rev exampleFiles) twoDaily)"
proof -
  have m: "mset (rev exampleFiles) = mset exampleFiles" by simp
  show ?thesis
    using C10_order_independent [OF permuting_id permuting_rev example_times m, of twoDaily]
      permuting_id permuting_rev example_times by simp
qed

section \<open>Directory capture: exclusion patterns (\<^verbatim>\<open>backup/directory.go\<close>)\<close>

subsection \<open>Runes: \<^verbatim>\<open>utf8.DecodeRuneInString\<close> and \<^verbatim>\<open>utf8.DecodeLastRuneInString\<close>\<close>

text \<open>
  A Go string is a sequence of bytes; \<^verbatim>\<open>filepath.Match\<close> and \<^verbatim>\<open>strings.TrimSpace\<close> read
  runes from it with the decoder of package \<^verbatim>\<open>utf8\<close>. A rune is an integer here and
  a byte is a \<open>char\<close>. The decoder returns the rune and its width in bytes; an invalid or
  cut-off encoding gives \<^verbatim>\<open>RuneError\<close> with width 1, the empty string gives
  \<^verbatim>\<open>RuneError\<close> with width 0. The masks and shifts of the source are written with
  \<open>mod\<close> and multiplication.
\<close>

definition RuneError :: int where
  "RuneError = 0xFFFD"

definition RuneSelf :: int where
  "RuneSelf = 0x80"

definition UTFMax :: nat where
  "UTFMax = 4"

definition byte :: "char \<Rightarrow> int" where
  "byte c = of_char c"

text \<open>
  The table \<^verbatim>\<open>first\<close> of the decoder, read as: the width of the encoding that a first
  byte announces (0 for a byte that cannot start an encoding of several bytes) and the
  range \<^verbatim>\<open>acceptRanges\<close> allowed for the second byte.
\<close>

definition firstSize :: "int \<Rightarrow> nat" where
  "firstSize b =
     (if 0xC2 \<le> b \<and> b \<le> 0xDF then 2
      else if 0xE0 \<le> b \<and> b \<le> 0xEF then 3
      else if 0xF0 \<le> b \<and> b \<le> 0xF4 then 4
      else 0)"

definition acceptLo :: "int \<Rightarrow> int" where
  "acceptLo b = (if b = 0xE0 then 0xA0 else if b = 0xF0 then 0x90 else 0x80)"

definition acceptHi :: "int \<Rightarrow> int" where
  "acceptHi b = (if b = 0xED then 0x9F else if b = 0xF4 then 0x8F else 0xBF)"

definition continuation :: "int \<Rightarrow> bool" where
  "continuation b = (0x80 \<le> b \<and> b \<le> 0xBF)"

definition DecodeRuneInString :: "string \<Rightarrow> int \<times> nat" where
  "DecodeRuneInString s =
     (case s of
        [] \<Rightarrow> (RuneError, 0)
      | c0 # s' \<Rightarrow>
          let s0 = byte c0; sz = firstSize s0
          in if s0 < RuneSelf then (s0, 1)
             else if sz = 0 then (RuneError, 1)
             else if length s < sz then (RuneError, 1)
             else let s1 = byte (s ! 1)
               in if s1 < acceptLo s0 \<or> acceptHi s0 < s1 then (RuneError, 1)
                  else if sz \<le> 2 then ((s0 mod 0x20) * 0x40 + s1 mod 0x40, 2)
                  else let s2 = byte (s ! 2)
                    in if \<not> continuation s2 then (RuneError, 1)
                       else if sz \<le> 3 then ((s0 mod 0x10) * 0x1000 + (s1 mod 0x40) * 0x40 + s2 mod 0x40, 3)
                       else let s3 = byte (s ! 3)
                         in if \<not> continuation s3 then (RuneError, 1)
                            else ((s0 mod 0x08) * 0x40000 + (s1 mod 0x40) * 0x1000
                                    + (s2 mod 0x40) * 0x40 + s3 mod 0x40, 4))"

definition RuneStart :: "char \<Rightarrow> bool" where
  "RuneStart c = (\<not> continuation (byte c))"

text \<open>
  The backward search of \<^verbatim>\<open>DecodeLastRuneInString\<close> for the first byte of the last rune:
  from \<open>start\<close> down to \<open>lim\<close>, stopping at a byte that can start a rune; the index below
  \<open>lim\<close> when there is none.
\<close>

function findStart :: "string \<Rightarrow> int \<Rightarrow> int \<Rightarrow> int" where
  "findStart s start lim =
     (if start \<ge> lim \<and> start \<ge> 0 then
        (if RuneStart (s ! nat start) then start else findStart s (start - 1) lim)
      else start)"
  by pat_completeness auto
termination
  by (relation "measure (\<lambda>(s, start, lim). nat (start + 1))") auto

definition DecodeLastRuneInString :: "string \<Rightarrow> int \<times> nat" where
  "DecodeLastRuneInString s =
     (let endp = int (length s)
      in if endp = 0 then (RuneError, 0)
         else let r = byte (s ! nat (endp - 1))
           in if r < RuneSelf then (r, 1)
              else let lim = (if endp - int UTFMax < 0 then 0 else endp - int UTFMax);
                       start = findStart s (endp - 2) lim;
                       start' = (if start < 0 then 0 else start)
                in case DecodeRuneInString (drop (nat start') s) of
                     (r', wd) \<Rightarrow> if start' + int wd \<noteq> endp then (RuneError, 1) else (r', wd))"

lemma firstSize_cases: "firstSize b = 0 \<or> firstSize b = 2 \<or> firstSize b = 3 \<or> firstSize b = 4"
  by (simp add: firstSize_def)

lemma DecodeRuneInString_size:
  assumes "s \<noteq> []"
  shows "1 \<le> snd (DecodeRuneInString s) \<and> snd (DecodeRuneInString s) \<le> length s"
proof -
  obtain c0 s' where s: "s = c0 # s'" using assms by (cases s) auto
  consider "firstSize (byte c0) = 0" | "firstSize (byte c0) = 2" | "firstSize (byte c0) = 3"
    | "firstSize (byte c0) = 4"
    using firstSize_cases[of "byte c0"] by auto
  then show ?thesis
  proof cases
    case 1
    then show ?thesis unfolding s DecodeRuneInString_def by (auto simp: Let_def Suc_le_eq)
  next
    case 2
    then show ?thesis unfolding s DecodeRuneInString_def by (auto simp: Let_def Suc_le_eq)
  next
    case 3
    then show ?thesis unfolding s DecodeRuneInString_def by (auto simp: Let_def Suc_le_eq)
  next
    case 4
    then show ?thesis unfolding s DecodeRuneInString_def by (auto simp: Let_def Suc_le_eq)
  qed
qed

lemma findStart_le: "findStart s start lim \<le> start"
proof (induction s start lim rule: findStart.induct)
  case (1 s start lim)
  show ?case
  proof (cases "start \<ge> lim \<and> start \<ge> 0")
    case True
    show ?thesis
    proof (cases "RuneStart (s ! nat start)")
      case T: True
      then show ?thesis using True by (subst findStart.simps) simp
    next
      case False
      have "findStart s (start - 1) lim \<le> start - 1" using 1[OF True False] .
      then show ?thesis using True False by (subst findStart.simps) simp
    qed
  next
    case False
    then show ?thesis by (subst findStart.simps) simp
  qed
qed

lemma DecodeLastRuneInString_size:
  assumes s: "s \<noteq> []"
  shows "1 \<le> snd (DecodeLastRuneInString s) \<and> snd (DecodeLastRuneInString s) \<le> length s"
proof -
  have l: "1 \<le> length s" using s by (simp add: Suc_le_eq)
  define lim where "lim = (if int (length s) - int UTFMax < 0 then 0 else int (length s) - int UTFMax)"
  define start where "start = findStart s (int (length s) - 2) lim"
  define start' where "start' = (if start < 0 then 0 else start)"
  obtain r' wd where d: "DecodeRuneInString (drop (nat start') s) = (r', wd)"
    by (cases "DecodeRuneInString (drop (nat start') s)")
  have e: "DecodeLastRuneInString s =
      (if byte (s ! nat (int (length s) - 1)) < RuneSelf then (byte (s ! nat (int (length s) - 1)), 1)
       else if start' + int wd \<noteq> int (length s) then (RuneError, 1) else (r', wd))"
    using s d unfolding DecodeLastRuneInString_def Let_def lim_def[symmetric] start_def[symmetric]
      start'_def[symmetric]
    by simp
  have "start \<le> int (length s) - 2" unfolding start_def by (rule findStart_le)
  then have lt: "0 \<le> start'" "start' < int (length s)" using l unfolding start'_def by auto
  then have "drop (nat start') s \<noteq> []" by simp
  then have w: "1 \<le> wd" using DecodeRuneInString_size[of "drop (nat start') s"] d by simp
  show ?thesis
  proof (cases "byte (s ! nat (int (length s) - 1)) < RuneSelf")
    case True
    then show ?thesis using e l by simp
  next
    case False
    show ?thesis
    proof (cases "start' + int wd \<noteq> int (length s)")
      case True
      then show ?thesis using e False l by simp
    next
      case F: False
      then have "wd \<le> length s" using lt by linarith
      then show ?thesis using e False F w by simp
    qed
  qed
qed

subsection \<open>Glob matching: \<^verbatim>\<open>filepath.Match\<close>\<close>

text \<open>
  \<^verbatim>\<open>shouldExclude\<close> calls \<^verbatim>\<open>filepath.Match\<close> of Go's standard library. It is modelled here
  as that function is written for Unix separators: the pattern is cut into chunks at the
  stars outside brackets (\<^verbatim>\<open>scanChunk\<close>), a chunk is matched at the front of the name
  (\<^verbatim>\<open>matchChunk\<close>, with character classes read by \<^verbatim>\<open>getEsc\<close>), and after a star the chunk
  is tried at every later position up to the next separator. A malformed pattern gives
  \<^verbatim>\<open>ErrBadPattern\<close>. A question mark and a character class consume one rune of the name,
  a literal character of the pattern one byte.
\<close>

datatype match_error = ErrBadPattern

definition Separator :: char where
  "Separator = CHR ''/''"

definition backslash :: char where
  "backslash = CHR 0x5C"

definition getEsc :: "string \<Rightarrow> match_error + (int \<times> string)" where
  "getEsc chunk =
     (if chunk = [] \<or> hd chunk = CHR ''-'' \<or> hd chunk = CHR '']'' then Inl ErrBadPattern
      else let chunk1 = (if hd chunk = backslash then tl chunk else chunk)
        in if chunk1 = [] then Inl ErrBadPattern
           else case DecodeRuneInString chunk1 of
               (r, n) \<Rightarrow>
                 let nchunk = drop n chunk1
                 in if r = RuneError \<and> n = 1 then Inl ErrBadPattern
                    else if nchunk = [] then Inl ErrBadPattern
                    else Inr (r, nchunk))"

lemma getEsc_shorter [termination_simp]:
  assumes "getEsc chunk = Inr (r, nchunk)"
  shows "length nchunk < length chunk"
proof -
  define chunk1 where "chunk1 = (if hd chunk = backslash then tl chunk else chunk)"
  have c: "chunk \<noteq> []" "chunk1 \<noteq> []"
    using assms unfolding getEsc_def Let_def chunk1_def by (auto split: if_splits)
  obtain r' n where d: "DecodeRuneInString chunk1 = (r', n)" by (cases "DecodeRuneInString chunk1")
  have n: "1 \<le> n" using DecodeRuneInString_size[OF c(2)] d by simp
  have "nchunk = drop n chunk1"
    using assms c d unfolding getEsc_def Let_def chunk1_def[symmetric] by (auto split: if_splits)
  then have "length nchunk < length chunk1" using n c(2) by simp
  moreover have "length chunk1 \<le> length chunk" unfolding chunk1_def by simp
  ultimately show ?thesis by simp
qed

lemma getEsc_nonempty: "getEsc chunk = Inr (r, nchunk) \<Longrightarrow> nchunk \<noteq> []"
  unfolding getEsc_def Let_def by (auto split: if_splits prod.splits)

text \<open>
  The loop over the ranges of a character class, after the opening bracket and the
  optional \<^verbatim>\<open>^\<close>: it ends at a closing bracket that follows at least one range. \<open>r\<close> is
  the rune of the name that the class is matched against.
\<close>

function classLoop :: "string \<Rightarrow> int \<Rightarrow> nat \<Rightarrow> bool \<Rightarrow> match_error + (bool \<times> string)" where
  "classLoop chunk r nrange match =
     (if chunk \<noteq> [] \<and> hd chunk = CHR '']'' \<and> nrange > 0 then Inr (match, tl chunk)
      else case getEsc chunk of
          Inl err \<Rightarrow> Inl err
        | Inr (lo, chunk1) \<Rightarrow>
            if hd chunk1 = CHR ''-'' then
              (case getEsc (tl chunk1) of
                 Inl err \<Rightarrow> Inl err
               | Inr (hi, chunk2) \<Rightarrow>
                   classLoop chunk2 r (nrange + 1)
                     (match \<or> (lo \<le> r \<and> r \<le> hi)))
            else classLoop chunk1 r (nrange + 1) (match \<or> (lo \<le> r \<and> r \<le> lo)))"
  by pat_completeness auto
termination
proof (relation "measure (\<lambda>(chunk, r, nrange, match). length chunk)")
  show "wf (measure (\<lambda>(chunk, r, nrange, match). length chunk))" by simp
next
  fix chunk :: string and r :: int and nrange :: nat and match :: bool and x lo chunk1 hi chunk2 x2
  assume "getEsc chunk = Inr x" "(lo, chunk1) = x" "hd chunk1 = CHR ''-''"
    "getEsc (tl chunk1) = Inr x2" "(hi, chunk2) = x2"
  then have "length chunk1 < length chunk" "length chunk2 < length (tl chunk1)"
    using getEsc_shorter[of chunk lo chunk1] getEsc_shorter[of "tl chunk1" hi chunk2] by auto
  then show "((chunk2, r, nrange + 1,
        match \<or> lo \<le> r \<and> r \<le> hi),
       chunk, r, nrange, match) \<in> measure (\<lambda>(chunk, r, nrange, match). length chunk)"
    by simp
next
  fix chunk :: string and r :: int and nrange :: nat and match :: bool and x lo chunk1
  assume "getEsc chunk = Inr x" "(lo, chunk1) = x"
  then have "length chunk1 < length chunk" using getEsc_shorter[of chunk lo chunk1] by auto
  then show "((chunk1, r, nrange + 1, match \<or> lo \<le> r \<and> r \<le> lo), chunk, r, nrange, match)
      \<in> measure (\<lambda>(chunk, r, nrange, match). length chunk)"
    by simp
qed

lemma classLoop_shorter:
  "classLoop chunk r nrange match = Inr (m, rest) \<Longrightarrow> length rest < length chunk"
proof (induction chunk r nrange match rule: classLoop.induct)
  case (1 chunk r nrange match)
  show ?case
  proof (cases "chunk \<noteq> [] \<and> hd chunk = CHR '']'' \<and> nrange > 0")
    case True
    then have "rest = tl chunk" using "1.prems" by (subst (asm) classLoop.simps) simp
    then show ?thesis using True by (cases chunk) auto
  next
    case False
    then obtain lo chunk1 where e: "getEsc chunk = Inr (lo, chunk1)"
      using "1.prems" by (subst (asm) classLoop.simps) (auto split: sum.splits)
    have l1: "length chunk1 < length chunk" using e by (rule getEsc_shorter)
    show ?thesis
    proof (cases "hd chunk1 = CHR ''-''")
      case True
      then obtain hi chunk2 where e2: "getEsc (tl chunk1) = Inr (hi, chunk2)"
        using "1.prems" False e by (subst (asm) classLoop.simps) (auto split: sum.splits)
      have l2: "length chunk2 < length (tl chunk1)" using e2 by (rule getEsc_shorter)
      have "classLoop chunk2 r (nrange + 1)
          (match \<or> lo \<le> r \<and> r \<le> hi) = Inr (m, rest)"
        using "1.prems" False e True e2 by (subst (asm) classLoop.simps) simp
      then have "length rest < length chunk2"
        using "1.IH"(1)[OF False e refl True e2 refl] by simp
      then show ?thesis using l1 l2 by simp
    next
      case F: False
      have "classLoop chunk1 r (nrange + 1) (match \<or> lo \<le> r \<and> r \<le> lo) = Inr (m, rest)"
        using "1.prems" False e F by (subst (asm) classLoop.simps) simp
      then have "length rest < length chunk1"
        using "1.IH"(2)[OF False e refl F] by simp
      then show ?thesis using l1 by simp
    qed
  qed
qed

text \<open>
  \<^verbatim>\<open>matchChunk\<close>: \<open>Inr (Some rest)\<close> when the chunk matches the front of \<open>s\<close> and \<open>rest\<close>
  remains, \<open>Inr None\<close> when it does not match. After a mismatch the loop goes on
  through the chunk to find syntax errors, no longer reading \<open>s\<close>.
\<close>

function matchChunkLoop :: "string \<Rightarrow> string \<Rightarrow> bool \<Rightarrow> match_error + string option" where
  "matchChunkLoop chunk s failed =
     (case chunk of
        [] \<Rightarrow> if failed then Inr None else Inr (Some s)
      | c # chunk1 \<Rightarrow>
          (let failed' = (failed \<or> s = [])
           in if c = CHR ''['' then
                (let r = (if \<not> failed' then fst (DecodeRuneInString s) else 0);
                     s' = (if \<not> failed' then drop (snd (DecodeRuneInString s)) s else s);
                     negated = (chunk1 \<noteq> [] \<and> hd chunk1 = CHR ''^'');
                     chunk2 = (if negated then tl chunk1 else chunk1)
                 in case classLoop chunk2 r 0 False of
                      Inl err \<Rightarrow> Inl err
                    | Inr (match, chunk3) \<Rightarrow> matchChunkLoop chunk3 s' (failed' \<or> match = negated))
              else if c = CHR ''?'' then
                (if \<not> failed'
                 then matchChunkLoop chunk1 (drop (snd (DecodeRuneInString s)) s) (hd s = Separator)
                 else matchChunkLoop chunk1 s failed')
              else if c = backslash then
                (case chunk1 of
                   [] \<Rightarrow> Inl ErrBadPattern
                 | d # chunk2 \<Rightarrow>
                     if \<not> failed' then matchChunkLoop chunk2 (tl s) (d \<noteq> hd s)
                     else matchChunkLoop chunk2 s failed')
              else (if \<not> failed' then matchChunkLoop chunk1 (tl s) (c \<noteq> hd s)
                    else matchChunkLoop chunk1 s failed')))"
  by pat_completeness auto
termination
proof (relation "measure (\<lambda>(chunk, s, failed). length chunk)", goal_cases)
  case 1
  show ?case by simp
next
  case (2 chunk s failed c chunk1 failed' r s' negated chunk2 x match chunk3)
  then have "length chunk3 < length chunk2" using classLoop_shorter[of chunk2 r 0 False match chunk3] by auto
  moreover have "length chunk2 \<le> length chunk1" using 2 by (cases chunk1) auto
  ultimately show ?case using 2 by simp
qed auto

definition matchChunk :: "string \<Rightarrow> string \<Rightarrow> match_error + string option" where
  "matchChunk chunk s = matchChunkLoop chunk s False"

text \<open>
  \<^verbatim>\<open>scanChunk\<close>: whether the pattern starts with stars, the chunk up to the next star
  outside brackets, and the rest of the pattern.
\<close>

fun scanEnd :: "bool \<Rightarrow> string \<Rightarrow> string \<times> string" where
  "scanEnd inrange [] = ([], [])"
| "scanEnd inrange (c # p) =
     (if c = backslash then
        (case p of
           [] \<Rightarrow> ([c], [])
         | d # p' \<Rightarrow> (case scanEnd inrange p' of (chunk, rest) \<Rightarrow> (c # d # chunk, rest)))
      else if c = CHR ''['' then (case scanEnd True p of (chunk, rest) \<Rightarrow> (c # chunk, rest))
      else if c = CHR '']'' then (case scanEnd False p of (chunk, rest) \<Rightarrow> (c # chunk, rest))
      else if c = CHR ''*'' \<and> \<not> inrange then ([], c # p)
      else (case scanEnd inrange p of (chunk, rest) \<Rightarrow> (c # chunk, rest)))"

definition scanChunk :: "string \<Rightarrow> bool \<times> string \<times> string" where
  "scanChunk pattern =
     (let star = (pattern \<noteq> [] \<and> hd pattern = CHR ''*'');
          pattern' = dropWhile (\<lambda>c. c = CHR ''*'') pattern
      in case scanEnd False pattern' of (chunk, rest) \<Rightarrow> (star, chunk, rest))"

lemma scanEnd_append: "scanEnd inrange p = (chunk, rest) \<Longrightarrow> chunk @ rest = p"
proof (induction inrange p arbitrary: chunk rest rule: scanEnd.induct)
  case (1 inrange)
  then show ?case by simp
next
  case (2 inrange c p)
  then show ?case by (auto split: if_splits list.splits prod.splits)
qed

lemma scanEnd_first:
  "scanEnd False (c # p) = (chunk, rest) \<Longrightarrow> c \<noteq> CHR ''*'' \<Longrightarrow> chunk \<noteq> []"
  by (auto split: if_splits list.splits prod.splits)

lemma scanChunk_shorter:
  assumes "scanChunk pattern = (star, chunk, rest)" "pattern \<noteq> []"
  shows "length rest < length pattern"
proof -
  let ?p = "dropWhile (\<lambda>c. c = CHR ''*'') pattern"
  have e: "scanEnd False ?p = (chunk, rest)"
    using assms(1) unfolding scanChunk_def Let_def by (auto split: prod.splits)
  then have a: "chunk @ rest = ?p" by (rule scanEnd_append)
  have le: "length ?p \<le> length pattern" by (rule length_dropWhile_le)
  show ?thesis
  proof (cases "hd pattern = CHR ''*''")
    case True
    then have "length ?p < length pattern" using assms(2) by (cases pattern) (auto simp: le_imp_less_Suc length_dropWhile_le)
    moreover have "length rest \<le> length ?p" using a by (metis length_append le_add2)
    ultimately show ?thesis by simp
  next
    case False
    then obtain c p where p: "pattern = c # p" "c \<noteq> CHR ''*''" using assms(2) by (cases pattern) auto
    then have "?p = c # p" by simp
    then have "chunk \<noteq> []" using e p(2) scanEnd_first by metis
    then have "length rest < length ?p" using a by (metis length_append length_greater_0_conv less_add_same_cancel2 add.commute)
    then show ?thesis using le by simp
  qed
qed

lemma scanChunk_shorter':
  "(star, chunk, rest) = scanChunk pattern \<Longrightarrow> pattern \<noteq> [] \<Longrightarrow> length rest < length pattern"
  using scanChunk_shorter[of pattern star chunk rest] by simp

text \<open>
  After a star, the chunk is tried behind every character of the name that is not a
  separator; the last chunk must use up the name.
\<close>

fun starLoop :: "string \<Rightarrow> bool \<Rightarrow> string \<Rightarrow> match_error + string option" where
  "starLoop chunk lastChunk [] = Inr None"
| "starLoop chunk lastChunk (c # name') =
     (if c = Separator then Inr None
      else case matchChunk chunk name' of
          Inl err \<Rightarrow> Inl err
        | Inr (Some t) \<Rightarrow> if lastChunk \<and> t \<noteq> [] then starLoop chunk lastChunk name' else Inr (Some t)
        | Inr None \<Rightarrow> starLoop chunk lastChunk name')"

text \<open>Before \<^verbatim>\<open>Match\<close> reports a mismatch, it checks the rest of the pattern for syntax errors.\<close>

function checkRest :: "string \<Rightarrow> match_error option" where
  "checkRest pattern =
     (if pattern = [] then None
      else case scanChunk pattern of
          (star, chunk, rest) \<Rightarrow>
            (case matchChunk chunk [] of Inl err \<Rightarrow> Some err | Inr t \<Rightarrow> checkRest rest))"
  by pat_completeness auto
termination
  by (relation "measure length") (auto dest: scanChunk_shorter')

function MatchLoop :: "string \<Rightarrow> string \<Rightarrow> match_error + bool" where
  "MatchLoop pattern name =
     (if pattern = [] then Inr (name = [])
      else case scanChunk pattern of
          (star, chunk, rest) \<Rightarrow>
            if star \<and> chunk = [] then Inr (Separator \<notin> set name)
            else (case matchChunk chunk name of
                Inl err \<Rightarrow> Inl err
              | Inr here \<Rightarrow>
                  (case (case here of Some t \<Rightarrow> if t = [] \<or> rest \<noteq> [] then Some t else None
                                     | None \<Rightarrow> None) of
                     Some t \<Rightarrow> MatchLoop rest t
                   | None \<Rightarrow>
                       (case (if star then starLoop chunk (rest = []) name else Inr None) of
                          Inl err \<Rightarrow> Inl err
                        | Inr (Some t) \<Rightarrow> MatchLoop rest t
                        | Inr None \<Rightarrow>
                            (case checkRest rest of Some err \<Rightarrow> Inl err | None \<Rightarrow> Inr False)))))"
  by pat_completeness auto
termination
  by (relation "measure (\<lambda>(pattern, name). length pattern)") (auto dest: scanChunk_shorter')

definition Match :: "string \<Rightarrow> string \<Rightarrow> match_error + bool" where
  "Match pattern name = MatchLoop pattern name"

subsection \<open>\<^verbatim>\<open>strings.TrimSpace\<close>\<close>

text \<open>
  \<^verbatim>\<open>strings.TrimSpace\<close> removes the white space of Unicode at both ends. It walks over
  the bytes of ASCII white space from the left and then from the right, and at the
  first byte from \<open>0x80\<close> on it hands the rest to \<^verbatim>\<open>TrimFunc\<close> or \<^verbatim>\<open>TrimRightFunc\<close> with
  \<^verbatim>\<open>unicode.IsSpace\<close>, which read runes.
\<close>

definition asciiSpace :: "char \<Rightarrow> bool" where
  "asciiSpace c =
     (c = CHR 0x09 \<or> c = CHR 0x0A \<or> c = CHR 0x0B \<or> c = CHR 0x0C \<or> c = CHR 0x0D \<or> c = CHR '' '')"

definition IsSpace :: "int \<Rightarrow> bool" where
  "IsSpace r =
     (if r \<le> 0xFF
      then r = 0x09 \<or> r = 0x0A \<or> r = 0x0B \<or> r = 0x0C \<or> r = 0x0D \<or> r = 0x20 \<or> r = 0x85 \<or> r = 0xA0
      else r = 0x1680 \<or> (0x2000 \<le> r \<and> r \<le> 0x200A) \<or> r = 0x2028 \<or> r = 0x2029
           \<or> r = 0x202F \<or> r = 0x205F \<or> r = 0x3000)"

function TrimLeftFunc :: "(int \<Rightarrow> bool) \<Rightarrow> string \<Rightarrow> string" where
  "TrimLeftFunc f s =
     (if s = [] then []
      else if f (fst (DecodeRuneInString s)) then TrimLeftFunc f (drop (snd (DecodeRuneInString s)) s)
      else s)"
  by pat_completeness auto
termination
proof (relation "measure (\<lambda>(f, s). length s)")
  show "wf (measure (\<lambda>(f, s). length s))" by simp
next
  fix f :: "int \<Rightarrow> bool" and s :: string
  assume "s \<noteq> []"
  then show "((f, drop (snd (DecodeRuneInString s)) s), f, s) \<in> measure (\<lambda>(f, s). length s)"
    using DecodeRuneInString_size[of s] by simp
qed

text \<open>
  \<^verbatim>\<open>lastIndexFunc\<close> with \<open>truth = false\<close>: the index of the last rune that does not satisfy
  \<open>f\<close>, or \<open>-1\<close>.
\<close>

function lastIndexFunc :: "(int \<Rightarrow> bool) \<Rightarrow> string \<Rightarrow> int" where
  "lastIndexFunc f s =
     (if s = [] then - 1
      else if \<not> f (fst (DecodeLastRuneInString s))
        then int (length s) - int (snd (DecodeLastRuneInString s))
        else lastIndexFunc f (take (length s - snd (DecodeLastRuneInString s)) s))"
  by pat_completeness auto
termination
proof (relation "measure (\<lambda>(f, s). length s)")
  show "wf (measure (\<lambda>(f, s). length s))" by simp
next
  fix f :: "int \<Rightarrow> bool" and s :: string
  assume "s \<noteq> []"
  then show "((f, take (length s - snd (DecodeLastRuneInString s)) s), f, s) \<in> measure (\<lambda>(f, s). length s)"
    using DecodeLastRuneInString_size[of s] by simp
qed

definition TrimRightFunc :: "(int \<Rightarrow> bool) \<Rightarrow> string \<Rightarrow> string" where
  "TrimRightFunc f s =
     (let i = lastIndexFunc f s
      in if i \<ge> 0 \<and> byte (s ! nat i) \<ge> RuneSelf
         then take (nat i + snd (DecodeRuneInString (drop (nat i) s))) s
         else take (nat (i + 1)) s)"

definition TrimFunc :: "(int \<Rightarrow> bool) \<Rightarrow> string \<Rightarrow> string" where
  "TrimFunc f s = TrimRightFunc f (TrimLeftFunc f s)"

text \<open>The second loop of \<^verbatim>\<open>TrimSpace\<close>, over the end of \<^verbatim>\<open>s[start:]\<close>.\<close>

function trimStop :: "string \<Rightarrow> string" where
  "trimStop s =
     (if s = [] then []
      else if byte (last s) \<ge> RuneSelf then TrimRightFunc IsSpace s
      else if \<not> asciiSpace (last s) then s
      else trimStop (butlast s))"
  by pat_completeness auto
termination
  by (relation "measure length") auto

fun TrimSpace :: "string \<Rightarrow> string" where
  "TrimSpace [] = []"
| "TrimSpace (c # s) =
     (if byte c \<ge> RuneSelf then TrimFunc IsSpace (c # s)
      else if \<not> asciiSpace c then trimStop (c # s)
      else TrimSpace s)"

subsection \<open>shouldExclude\<close>

text \<open>
  \<^verbatim>\<open>shouldExclude\<close> is the same function in both versions of \<^verbatim>\<open>directory.go\<close>: a blank
  pattern and a malformed pattern are skipped; otherwise the path is excluded when the
  pattern matches it as a glob and also when the path starts with the pattern, a test
  that the source comments as "for directories".
\<close>

fun shouldExclude :: "string \<Rightarrow> string list \<Rightarrow> bool" where
  "shouldExclude path [] = False"
| "shouldExclude path (pattern # patterns) =
     (let pattern' = TrimSpace pattern
      in if pattern' = [] then shouldExclude path patterns
         else case Match pattern' path of
             Inl err \<Rightarrow> shouldExclude path patterns
           | Inr matched \<Rightarrow>
               if matched then True
               else if HasPrefix path pattern' then True
               else shouldExclude path patterns)"

text \<open>
  What one pattern does to a path. The pattern matches the path as a glob; or it does
  not, and is a literal prefix of the path. In the second case the pattern names a
  directory above the path when the prefix ends at a separator of the path (the
  pattern ends with the separator, or the separator follows it in the path); otherwise
  the prefix ends inside a component of the path, or is the whole path.
\<close>

definition globMatches :: "string \<Rightarrow> string \<Rightarrow> bool" where
  "globMatches pattern path =
     (let pattern' = TrimSpace pattern in pattern' \<noteq> [] \<and> Match pattern' path = Inr True)"

definition underDirectory :: "string \<Rightarrow> string \<Rightarrow> bool" where
  "underDirectory dir path =
     (dir \<noteq> [] \<and> HasPrefix path dir \<and> length dir < length path
      \<and> (last dir = Separator \<or> path ! length dir = Separator))"

definition namesDirectoryAbove :: "string \<Rightarrow> string \<Rightarrow> bool" where
  "namesDirectoryAbove pattern path =
     (let pattern' = TrimSpace pattern
      in pattern' \<noteq> [] \<and> Match pattern' path = Inr False \<and> underDirectory pattern' path)"

definition cutsComponent :: "string \<Rightarrow> string \<Rightarrow> bool" where
  "cutsComponent pattern path =
     (let pattern' = TrimSpace pattern
      in pattern' \<noteq> [] \<and> Match pattern' path = Inr False \<and> HasPrefix path pattern'
         \<and> \<not> underDirectory pattern' path)"

subsection \<open>The walk of \<^verbatim>\<open>CopyDirectory\<close>\<close>

text \<open>
  The source tree as \<^verbatim>\<open>filepath.Walk\<close> finds it, each entry with what the file-system
  calls on it return in this run. \<open>NoInfo\<close> is an entry whose \<^verbatim>\<open>Lstat\<close> fails. A file
  and a symbolic link carry the result of the check before copying (\<^verbatim>\<open>os.Stat\<close> in
  \<^verbatim>\<open>backup/directory.go\<close>, \<^verbatim>\<open>os.Lstat\<close> in the other version of the file) and whether
  \<^verbatim>\<open>copyFile\<close> fails; a link also carries the results of the calls that the other
  version makes to copy it as a link. A directory carries whether reading its names
  fails and whether \<^verbatim>\<open>os.MkdirAll\<close> of its copy fails, and its entries in the order of
  the walk.
\<close>

datatype stat_result = StatOk | StatNotExist | StatOtherError

record FileOps =
  statResult :: stat_result
  copyFileFail :: bool

record LinkOps =
  readlinkFail :: bool
  destExists :: bool
  removeFail :: bool
  symlinkFail :: bool

datatype FileTree =
    NoInfo string
  | File string FileOps
  | Symlink string FileOps LinkOps
  | Dir string bool bool "FileTree list"

fun nodeName :: "FileTree \<Rightarrow> string" where
  "nodeName (NoInfo name) = name"
| "nodeName (File name ops) = name"
| "nodeName (Symlink name ops link) = name"
| "nodeName (Dir name readDirFail mkdirAllFail children) = name"

fun isDir :: "FileTree \<Rightarrow> bool" where
  "isDir (Dir name readDirFail mkdirAllFail children) = True"
| "isDir node = False"

fun lstatFails :: "FileTree \<Rightarrow> bool" where
  "lstatFails (NoInfo name) = True"
| "lstatFails node = False"

text \<open>The two versions of \<^verbatim>\<open>CopyDirectory\<close> in the repository.\<close>

datatype source_version = directory_go | part_002

datatype copy_error =
    FailedToCreateDestinationDirectory
  | FailedToGetAbsoluteSource
  | FailedToGetAbsoluteDestination
  | MkdirAllError
  | CopyFileError
  | FailedToRemoveExistingFile
  | SymlinkError

text \<open>What a walk function returns besides \<^verbatim>\<open>nil\<close>: \<^verbatim>\<open>filepath.SkipDir\<close> or an error.\<close>

datatype walk_error = SkipDir | Failed copy_error

text \<open>
  The path of an entry relative to the root, as \<^verbatim>\<open>filepath.Rel\<close> gives it: the root
  itself is \<^verbatim>\<open>.\<close>, and an entry is its directory's path, the separator and its name.
\<close>

definition relJoin :: "string \<Rightarrow> string \<Rightarrow> string" where
  "relJoin dir name = (if dir = ''.'' then name else dir @ [Separator] @ name)"

text \<open>
  The function that \<^verbatim>\<open>CopyDirectory\<close> passes to \<^verbatim>\<open>filepath.Walk\<close>, with the relative path
  of the entry in place of its absolute path (\<^verbatim>\<open>filepath.Rel\<close> does not fail on a path that
  the walk has built below the root). It returns \<^verbatim>\<open>nil\<close>, \<^verbatim>\<open>SkipDir\<close> or an error, and the
  relative paths it has created in the destination.
\<close>

definition copyFile :: "FileOps \<Rightarrow> string \<Rightarrow> walk_error option \<times> string list" where
  "copyFile ops relPath =
     (if copyFileFail ops then (Some (Failed CopyFileError), []) else (None, [relPath]))"

definition copyLink :: "LinkOps \<Rightarrow> string \<Rightarrow> walk_error option \<times> string list" where
  "copyLink link relPath =
     (if readlinkFail link then (None, [])
      else if destExists link \<and> removeFail link then (Some (Failed FailedToRemoveExistingFile), [])
      else if symlinkFail link then (Some (Failed SymlinkError), [])
      else (None, [relPath]))"

definition walkFn ::
  "source_version \<Rightarrow> string list \<Rightarrow> string \<Rightarrow> FileTree \<Rightarrow> bool \<Rightarrow> walk_error option \<times> string list" where
  "walkFn version excludePatterns relPath info err =
     (if err then (None, [])
      else if relPath = ''.'' then (None, [])
      else if shouldExclude relPath excludePatterns
        then (if isDir info then (Some SkipDir, []) else (None, []))
      else case info of
          Dir name readDirFail mkdirAllFail children \<Rightarrow>
            if mkdirAllFail then (Some (Failed MkdirAllError), []) else (None, [relPath])
        | File name ops \<Rightarrow>
            (case version of
               directory_go \<Rightarrow>
                 (if statResult ops = StatNotExist then (None, [])
                  else if statResult ops \<noteq> StatOk then (None, [])
                  else copyFile ops relPath)
             | part_002 \<Rightarrow>
                 (if statResult ops = StatNotExist then (None, []) else copyFile ops relPath))
        | Symlink name ops link \<Rightarrow>
            (case version of
               directory_go \<Rightarrow>
                 (if statResult ops = StatNotExist then (None, [])
                  else if statResult ops \<noteq> StatOk then (None, [])
                  else copyFile ops relPath)
             | part_002 \<Rightarrow> copyLink link relPath)
        | NoInfo name \<Rightarrow> (None, []))"

text \<open>
  \<^verbatim>\<open>filepath.Walk\<close>: \<open>walk\<close> on one entry whose \<^verbatim>\<open>Lstat\<close> succeeded, \<open>walkNames\<close> the loop
  over the names of a directory. A directory is handed to the walk function with the
  error of reading its names, and is entered when neither failed. \<^verbatim>\<open>SkipDir\<close> returned
  for a directory ends that directory only; any other error ends the walk.
\<close>

fun walk ::
  "(string \<Rightarrow> FileTree \<Rightarrow> bool \<Rightarrow> walk_error option \<times> string list) \<Rightarrow> string \<Rightarrow> FileTree
     \<Rightarrow> walk_error option \<times> string list"
and walkNames ::
  "(string \<Rightarrow> FileTree \<Rightarrow> bool \<Rightarrow> walk_error option \<times> string list) \<Rightarrow> string \<Rightarrow> FileTree list
     \<Rightarrow> walk_error option \<times> string list"
where
  "walk fn path (Dir name readDirFail mkdirAllFail children) =
     (case fn path (Dir name readDirFail mkdirAllFail children) readDirFail of
        (Some err1, created) \<Rightarrow> (Some err1, created)
      | (None, created) \<Rightarrow>
          if readDirFail then (None, created)
          else (case walkNames fn path children of (err, created') \<Rightarrow> (err, created @ created')))"
| "walk fn path (File name ops) = fn path (File name ops) False"
| "walk fn path (Symlink name ops link) = fn path (Symlink name ops link) False"
| "walk fn path (NoInfo name) = fn path (NoInfo name) True"
| "walkNames fn path [] = (None, [])"
| "walkNames fn path (node # rest) =
     (let filename = relJoin path (nodeName node)
      in case (if lstatFails node
               then (case fn filename node True of
                       (Some err, created) \<Rightarrow> (if err \<noteq> SkipDir then Some err else None, created)
                     | (None, created) \<Rightarrow> (None, created))
               else (case walk fn filename node of
                       (Some err, created) \<Rightarrow> (if \<not> isDir node \<or> err \<noteq> SkipDir then Some err else None, created)
                     | (None, created) \<Rightarrow> (None, created))) of
           (Some err, created) \<Rightarrow> (Some err, created)
         | (None, created) \<Rightarrow>
             (case walkNames fn path rest of (err, created') \<Rightarrow> (err, created @ created')))"

definition Walk ::
  "(string \<Rightarrow> FileTree \<Rightarrow> bool \<Rightarrow> walk_error option \<times> string list) \<Rightarrow> FileTree
     \<Rightarrow> copy_error option \<times> string list" where
  "Walk fn root =
     (case (if lstatFails root then fn ''.'' root True else walk fn ''.'' root) of
        (Some SkipDir, created) \<Rightarrow> (None, created)
      | (Some (Failed err), created) \<Rightarrow> (Some err, created)
      | (None, created) \<Rightarrow> (None, created))"

text \<open>
  What the calls before the walk do: \<^verbatim>\<open>os.MkdirAll\<close> of the destination and the two calls
  of \<^verbatim>\<open>filepath.Abs\<close>.
\<close>

record Preparation =
  mkdirDestinationFail :: bool
  absSourceFail :: bool
  absDestinationFail :: bool

definition CopyDirectory ::
  "source_version \<Rightarrow> Preparation \<Rightarrow> FileTree \<Rightarrow> string list \<Rightarrow> copy_error option \<times> string list" where
  "CopyDirectory version prep source excludePatterns =
     (if mkdirDestinationFail prep then (Some FailedToCreateDestinationDirectory, [])
      else if absSourceFail prep then (Some FailedToGetAbsoluteSource, [])
      else if absDestinationFail prep then (Some FailedToGetAbsoluteDestination, [])
      else Walk (walkFn version excludePatterns) source)"

subsection \<open>The entries of a tree and what the walk creates\<close>

text \<open>
  Every entry below a directory with its relative path, the relative paths of the
  directories above it (below the root), and the entry itself.
\<close>

fun entriesOf :: "string \<Rightarrow> FileTree \<Rightarrow> (string \<times> string list \<times> FileTree) list"
and entries :: "string \<Rightarrow> FileTree list \<Rightarrow> (string \<times> string list \<times> FileTree) list"
where
  "entriesOf path (Dir name readDirFail mkdirAllFail children) =
     (path, [], Dir name readDirFail mkdirAllFail children)
       # map (\<lambda>(p, above, e). (p, path # above, e)) (entries path children)"
| "entriesOf path (File name ops) = [(path, [], File name ops)]"
| "entriesOf path (Symlink name ops link) = [(path, [], Symlink name ops link)]"
| "entriesOf path (NoInfo name) = [(path, [], NoInfo name)]"
| "entries dir [] = []"
| "entries dir (node # rest) = entriesOf (relJoin dir (nodeName node)) node @ entries dir rest"

text \<open>
  An entry is intact in a run when every call on it succeeds: it can be read, and the
  walk function creates its copy when it is not excluded. Names of entries are never
  \<^verbatim>\<open>.\<close>, the name of the root.
\<close>

fun intact :: "source_version \<Rightarrow> FileTree \<Rightarrow> bool" where
  "intact version (NoInfo name) = False"
| "intact version (File name ops) = (name \<noteq> ''.'' \<and> statResult ops = StatOk \<and> \<not> copyFileFail ops)"
| "intact version (Symlink name ops link) =
     (name \<noteq> ''.'' \<and>
      (case version of
         directory_go \<Rightarrow> statResult ops = StatOk \<and> \<not> copyFileFail ops
       | part_002 \<Rightarrow> \<not> readlinkFail link \<and> \<not> (destExists link \<and> removeFail link) \<and> \<not> symlinkFail link))"
| "intact version (Dir name readDirFail mkdirAllFail children) =
     (name \<noteq> ''.'' \<and> \<not> readDirFail \<and> \<not> mkdirAllFail \<and> list_all (intact version) children)"

fun validNames :: "FileTree \<Rightarrow> bool" where
  "validNames (Dir name readDirFail mkdirAllFail children) = (name \<noteq> ''.'' \<and> list_all validNames children)"
| "validNames node = (nodeName node \<noteq> ''.'')"

text \<open>The entries that are not excluded and lie in no excluded directory.\<close>

definition kept :: "string list \<Rightarrow> (string \<times> string list \<times> FileTree) list \<Rightarrow> string set" where
  "kept patterns es =
     {p. \<exists>above e. (p, above, e) \<in> set es \<and> \<not> shouldExclude p patterns
           \<and> (\<forall>a \<in> set above. \<not> shouldExclude a patterns)}"

lemma kept_append: "kept pats (xs @ ys) = kept pats xs \<union> kept pats ys"
  unfolding kept_def by auto

lemma kept_Nil: "kept pats [] = {}"
  unfolding kept_def by simp

lemma kept_single: "kept pats [(p, [], e)] = (if shouldExclude p pats then {} else {p})"
  unfolding kept_def by auto

lemma kept_Cons: "kept pats ((p, [], e) # es) = (if shouldExclude p pats then {} else {p}) \<union> kept pats es"
  unfolding kept_def by auto

lemma kept_under:
  "kept pats (map (\<lambda>(p, above, e). (p, path # above, e)) es)
     = (if shouldExclude path pats then {} else kept pats es)"
  unfolding kept_def by (auto simp: image_iff) force+

lemma relJoin_not_root: "name \<noteq> ''.'' \<Longrightarrow> relJoin dir name \<noteq> ''.''"
  by (auto simp: relJoin_def Separator_def append_eq_Cons_conv)

lemma walkFn_err: "walkFn v pats p info True = (None, [])"
  by (simp add: walkFn_def)

lemma walkFn_excluded:
  "p \<noteq> ''.'' \<Longrightarrow> shouldExclude p pats \<Longrightarrow>
     walkFn v pats p info False = (if isDir info then Some SkipDir else None, [])"
  by (simp add: walkFn_def)

lemma walkFn_result:
  assumes "walkFn v pats p info err = (e, created)"
  shows "set created \<subseteq> (if shouldExclude p pats \<or> p = ''.'' then {} else {p})"
    and "e = Some SkipDir \<Longrightarrow> isDir info \<and> shouldExclude p pats"
  using assms
  by (auto simp: walkFn_def copyFile_def copyLink_def
      split: if_splits FileTree.splits source_version.splits)

lemma walkFn_intact:
  "p \<noteq> ''.'' \<Longrightarrow> \<not> shouldExclude p pats \<Longrightarrow> intact v info \<Longrightarrow>
     walkFn v pats p info False = (None, [p])"
  by (cases info; cases v) (simp_all add: walkFn_def copyFile_def copyLink_def)

lemma walkNames_sound_aux:
  assumes "\<And>node path e created. node \<in> set nodes \<Longrightarrow> path \<noteq> ''.'' \<Longrightarrow> validNames node \<Longrightarrow>
             walk (walkFn v pats) path node = (e, created) \<Longrightarrow>
             set created \<subseteq> kept pats (entriesOf path node) \<and> (e = Some SkipDir \<longrightarrow> isDir node)"
    and "list_all validNames nodes"
    and "walkNames (walkFn v pats) dir nodes = (e, created)"
  shows "set created \<subseteq> kept pats (entries dir nodes) \<and> e \<noteq> Some SkipDir"
  using assms
proof (induction nodes arbitrary: e created)
  case Nil
  then show ?case by simp
next
  case (Cons node rest)
  define filename where "filename = relJoin dir (nodeName node)"
  have vn: "validNames node" and vr: "list_all validNames rest" using Cons.prems(2) by simp_all
  have nn: "nodeName node \<noteq> ''.''" using vn by (cases node) simp_all
  have fr: "filename \<noteq> ''.''" unfolding filename_def using nn by (rule relJoin_not_root)
  obtain e1 c1 where w1: "walk (walkFn v pats) filename node = (e1, c1)"
    by (cases "walk (walkFn v pats) filename node")
  have s1: "set c1 \<subseteq> kept pats (entriesOf filename node)" "e1 = Some SkipDir \<longrightarrow> isDir node"
    using Cons.prems(1)[of node filename e1 c1] fr vn w1 by simp_all
  obtain e2 c2 where w2: "walkNames (walkFn v pats) dir rest = (e2, c2)"
    by (cases "walkNames (walkFn v pats) dir rest")
  have s2: "set c2 \<subseteq> kept pats (entries dir rest)" "e2 \<noteq> Some SkipDir"
    using Cons.IH[OF _ vr w2] Cons.prems(1) by simp_all
  have lf: "lstatFails node \<Longrightarrow> walk (walkFn v pats) filename node = walkFn v pats filename node True"
    by (cases node) simp_all
  define first where "first = (if e1 = Some SkipDir then None else e1, c1)"
  have f: "(if lstatFails node
               then (case walkFn v pats filename node True of
                       (Some err, created) \<Rightarrow> (if err \<noteq> SkipDir then Some err else None, created)
                     | (None, created) \<Rightarrow> (None, created))
               else (case walk (walkFn v pats) filename node of
                       (Some err, created) \<Rightarrow> (if \<not> isDir node \<or> err \<noteq> SkipDir then Some err else None, created)
                     | (None, created) \<Rightarrow> (None, created))) = first"
  proof (cases "lstatFails node")
    case True
    then show ?thesis using lf[OF True] w1 unfolding first_def by (simp add: walkFn_err)
  next
    case False
    then show ?thesis using w1 s1(2) unfolding first_def by (auto split: option.splits)
  qed
  have r: "walkNames (walkFn v pats) dir (node # rest)
      = (case first of (Some err, created) \<Rightarrow> (Some err, created)
         | (None, created) \<Rightarrow> (case walkNames (walkFn v pats) dir rest of (err, created') \<Rightarrow> (err, created @ created')))"
    unfolding walkNames.simps Let_def filename_def[symmetric] f ..
  have k: "kept pats (entries dir (node # rest))
      = kept pats (entriesOf filename node) \<union> kept pats (entries dir rest)"
    by (simp add: kept_append filename_def)
  show ?case
  proof (cases "fst first")
    case None
    then have "e = e2" "created = c1 @ c2"
      using Cons.prems(3) r w2 unfolding first_def by (auto split: if_splits)
    then show ?thesis using s1 s2 k by auto
  next
    case (Some err)
    then have "e = Some err" "created = c1" "err \<noteq> SkipDir"
      using Cons.prems(3) r unfolding first_def by (auto split: if_splits)
    then show ?thesis using s1 k by auto
  qed
qed

lemma walk_sound:
  "path \<noteq> ''.'' \<Longrightarrow> validNames node \<Longrightarrow> walk (walkFn v pats) path node = (e, created) \<Longrightarrow>
     set created \<subseteq> kept pats (entriesOf path node) \<and> (e = Some SkipDir \<longrightarrow> isDir node)"
proof (induction node arbitrary: path e created)
  case (NoInfo name)
  then show ?case by (simp add: walkFn_err)
next
  case (File name ops)
  then show ?case using walkFn_result[of v pats path "File name ops" False e created]
    by (auto simp: kept_single split: if_splits)
next
  case (Symlink name ops link)
  then show ?case using walkFn_result[of v pats path "Symlink name ops link" False e created]
    by (auto simp: kept_single split: if_splits)
next
  case (Dir name readDirFail mkdirAllFail children)
  let ?d = "Dir name readDirFail mkdirAllFail children"
  obtain e1 c1 where f: "walkFn v pats path ?d readDirFail = (e1, c1)"
    by (cases "walkFn v pats path ?d readDirFail")
  note r = walkFn_result[OF f]
  have vc: "list_all validNames children" using Dir.prems(2) by simp
  have k: "kept pats (entriesOf path ?d)
      = (if shouldExclude path pats then {} else {path} \<union> kept pats (entries path children))"
    by (simp add: kept_Cons kept_under)
  show ?case
  proof (cases "e1 = None \<and> \<not> readDirFail")
    case False
    then have "e = e1" "created = c1"
      using Dir.prems(3) f by (auto split: option.splits if_splits)
    then show ?thesis using r k Dir.prems(1) by (auto split: if_splits)
  next
    case True
    obtain e2 c2 where w: "walkNames (walkFn v pats) path children = (e2, c2)"
      by (cases "walkNames (walkFn v pats) path children")
    have s: "set c2 \<subseteq> kept pats (entries path children)" "e2 \<noteq> Some SkipDir"
      using walkNames_sound_aux[of children v pats path e2 c2] Dir.IH vc w by blast+
    have ec: "e = e2" "created = c1 @ c2" using Dir.prems(3) f True w by simp_all
    have ne: "\<not> shouldExclude path pats"
    proof
      assume x: "shouldExclude path pats"
      have "walkFn v pats path ?d False = (Some SkipDir, [])"
        using walkFn_excluded[OF Dir.prems(1) x, of v ?d] by simp
      then show False using f True by simp
    qed
    show ?thesis using ec s r(1) k ne Dir.prems(1) by (auto split: if_splits)
  qed
qed

lemma walkNames_sound:
  assumes "list_all validNames nodes" and "walkNames (walkFn v pats) dir nodes = (e, created)"
  shows "set created \<subseteq> kept pats (entries dir nodes)"
  using walkNames_sound_aux[of nodes v pats dir e created] walk_sound assms by blast

lemma walkNames_intact_aux:
  assumes "\<And>node path. node \<in> set nodes \<Longrightarrow> path \<noteq> ''.'' \<Longrightarrow> intact v node \<Longrightarrow>
             \<exists>created. walk (walkFn v pats) path node
                 = (if isDir node \<and> shouldExclude path pats then Some SkipDir else None, created)
               \<and> set created = kept pats (entriesOf path node)"
    and "list_all (intact v) nodes"
  shows "\<exists>created. walkNames (walkFn v pats) dir nodes = (None, created)
           \<and> set created = kept pats (entries dir nodes)"
  using assms
proof (induction nodes)
  case Nil
  show ?case by (simp add: kept_Nil)
next
  case (Cons node rest)
  define filename where "filename = relJoin dir (nodeName node)"
  have vn: "intact v node" and vr: "list_all (intact v) rest" using Cons.prems(2) by simp_all
  have nn: "nodeName node \<noteq> ''.''" using vn by (cases node) simp_all
  have nl: "\<not> lstatFails node" using vn by (cases node) simp_all
  have fr: "filename \<noteq> ''.''" unfolding filename_def using nn by (rule relJoin_not_root)
  obtain c1 where w1: "walk (walkFn v pats) filename node
        = (if isDir node \<and> shouldExclude filename pats then Some SkipDir else None, c1)"
      and s1: "set c1 = kept pats (entriesOf filename node)"
    using Cons.prems(1)[of node filename] fr vn by auto
  obtain c2 where w2: "walkNames (walkFn v pats) dir rest = (None, c2)"
      and s2: "set c2 = kept pats (entries dir rest)"
    using Cons.IH[OF _ vr] Cons.prems(1) by auto
  have "walkNames (walkFn v pats) dir (node # rest) = (None, c1 @ c2)"
    unfolding walkNames.simps Let_def filename_def[symmetric] using nl w1 w2 by simp
  moreover have "set (c1 @ c2) = kept pats (entries dir (node # rest))"
    using s1 s2 by (simp add: kept_append filename_def)
  ultimately show ?case by blast
qed

lemma walk_intact:
  "path \<noteq> ''.'' \<Longrightarrow> intact v node \<Longrightarrow>
     \<exists>created. walk (walkFn v pats) path node
         = (if isDir node \<and> shouldExclude path pats then Some SkipDir else None, created)
       \<and> set created = kept pats (entriesOf path node)"
proof (induction node arbitrary: path)
  case (NoInfo name)
  then show ?case by simp
next
  case (File name ops)
  show ?case
  proof (cases "shouldExclude path pats")
    case True
    then show ?thesis using walkFn_excluded[OF File.prems(1) True, of v "File name ops"]
      by (simp add: kept_single)
  next
    case False
    then show ?thesis using walkFn_intact[OF File.prems(1) False File.prems(2)]
      by (simp add: kept_single)
  qed
next
  case (Symlink name ops link)
  show ?case
  proof (cases "shouldExclude path pats")
    case True
    then show ?thesis using walkFn_excluded[OF Symlink.prems(1) True, of v "Symlink name ops link"]
      by (simp add: kept_single)
  next
    case False
    then show ?thesis using walkFn_intact[OF Symlink.prems(1) False Symlink.prems(2)]
      by (simp add: kept_single)
  qed
next
  case (Dir name readDirFail mkdirAllFail children)
  let ?d = "Dir name readDirFail mkdirAllFail children"
  have rd: "\<not> readDirFail" and ic: "list_all (intact v) children" using Dir.prems(2) by simp_all
  have k: "kept pats (entriesOf path ?d)
      = (if shouldExclude path pats then {} else {path} \<union> kept pats (entries path children))"
    by (simp add: kept_Cons kept_under)
  show ?case
  proof (cases "shouldExclude path pats")
    case True
    then show ?thesis using walkFn_excluded[OF Dir.prems(1) True, of v ?d] k rd by simp
  next
    case False
    have f: "walkFn v pats path ?d False = (None, [path])"
      using walkFn_intact[OF Dir.prems(1) False Dir.prems(2)] .
    obtain c2 where w: "walkNames (walkFn v pats) path children = (None, c2)"
        and s: "set c2 = kept pats (entries path children)"
      using walkNames_intact_aux[of children v pats path] Dir.IH ic by blast
    have "walk (walkFn v pats) path ?d = (None, path # c2)" using f w rd by simp
    then show ?thesis using s k False by simp
  qed
qed

lemma walkNames_intact:
  assumes "list_all (intact v) nodes"
  shows "\<exists>created. walkNames (walkFn v pats) dir nodes = (None, created)
           \<and> set created = kept pats (entries dir nodes)"
  using walkNames_intact_aux[of nodes v pats dir] walk_intact assms by blast

text \<open>\<^verbatim>\<open>CopyDirectory\<close> on a source directory that can be read.\<close>

lemma CopyDirectory_root:
  assumes "\<not> mkdirDestinationFail prep" "\<not> absSourceFail prep" "\<not> absDestinationFail prep"
  shows "CopyDirectory v prep (Dir name False mk children) pats
     = (case walkNames (walkFn v pats) ''.'' children of
          (Some SkipDir, created) \<Rightarrow> (None, created)
        | (Some (Failed err), created) \<Rightarrow> (Some err, created)
        | (None, created) \<Rightarrow> (None, created))"
  using assms by (simp add: CopyDirectory_def Walk_def walkFn_def split: prod.splits)

lemma CopyDirectory_sound:
  assumes "validNames source"
  shows "set (snd (CopyDirectory v prep source pats))
     \<subseteq> (case source of Dir name readDirFail mk children \<Rightarrow> kept pats (entries ''.'' children) | _ \<Rightarrow> {})"
proof (cases "mkdirDestinationFail prep \<or> absSourceFail prep \<or> absDestinationFail prep")
  case True
  then show ?thesis by (auto simp: CopyDirectory_def)
next
  case False
  show ?thesis
  proof (cases source)
    case (NoInfo name)
    then show ?thesis using False by (simp add: CopyDirectory_def Walk_def walkFn_def)
  next
    case (File name ops)
    then show ?thesis using False by (simp add: CopyDirectory_def Walk_def walkFn_def)
  next
    case (Symlink name ops link)
    then show ?thesis using False by (simp add: CopyDirectory_def Walk_def walkFn_def)
  next
    case (Dir name readDirFail mk children)
    show ?thesis
    proof (cases readDirFail)
      case True
      then show ?thesis using False Dir by (simp add: CopyDirectory_def Walk_def walkFn_def)
    next
      case F: False
      obtain e c where w: "walkNames (walkFn v pats) ''.'' children = (e, c)"
        by (cases "walkNames (walkFn v pats) ''.'' children")
      have "list_all validNames children" using assms Dir by simp
      then have "set c \<subseteq> kept pats (entries ''.'' children)"
        using walkNames_sound[of children v pats "''.''" e c] w by blast
      moreover have "snd (CopyDirectory v prep source pats) = c"
        using CopyDirectory_root[of prep v name mk children pats] False Dir F w
        by (auto split: option.splits walk_error.splits)
      ultimately show ?thesis using Dir by simp
    qed
  qed
qed

lemma CopyDirectory_intact:
  assumes "\<not> mkdirDestinationFail prep" "\<not> absSourceFail prep" "\<not> absDestinationFail prep"
    and "list_all (intact v) children"
  shows "fst (CopyDirectory v prep (Dir name False mk children) pats) = None
     \<and> set (snd (CopyDirectory v prep (Dir name False mk children) pats))
         = kept pats (entries ''.'' children)"
proof -
  obtain c where "walkNames (walkFn v pats) ''.'' children = (None, c)"
    "set c = kept pats (entries ''.'' children)"
    using walkNames_intact[OF assms(4), of pats "''.''"] by blast
  then show ?thesis using CopyDirectory_root[OF assms(1-3), of v name mk children pats] by simp
qed

subsection \<open>The matcher and \<^verbatim>\<open>TrimSpace\<close>, evaluated\<close>

text \<open>
  A star does not cross a separator; a question mark takes one rune, here the two bytes
  of a Latin letter with an accent; a class that is not closed is a malformed pattern.
  \<^verbatim>\<open>TrimSpace\<close> removes a no-break space (\<^verbatim>\<open>U+00A0\<close>) and an em space (\<^verbatim>\<open>U+2003\<close>) like
  blanks, and keeps a byte \<open>0xA0\<close> that is not part of an encoding.
\<close>

lemma Match_examples:
  "Match ''*.log'' ''build.log'' = Inr True"
  "Match ''*.log'' ''src/trace.log'' = Inr False"
  "Match ''b?ild'' ''build'' = Inr True"
  "Match ''?'' [CHR 0xC3, CHR 0xA9] = Inr True"
  "Match ''??'' [CHR 0xC3, CHR 0xA9] = Inr False"
  "Match ''[^a]'' [CHR 0xC3, CHR 0xA9] = Inr True"
  "Match ''[a-'' ''x'' = Inl ErrBadPattern"
  "Match ''build/'' ''build/out.bin'' = Inr False"
  by code_simp+

lemma TrimSpace_examples:
  "TrimSpace ''  build  '' = ''build''"
  "TrimSpace [CHR 0xC2, CHR 0xA0, CHR ''b'', CHR 0xE2, CHR 0x80, CHR 0x83, CHR '' ''] = ''b''"
  "TrimSpace [CHR ''a'', CHR 0xA0] = [CHR ''a'', CHR 0xA0]"
  "TrimSpace ''   '' = []"
  by code_simp+

subsection \<open>An example tree\<close>

text \<open>
  A source directory with a log file, a directory \<^verbatim>\<open>build\<close> with one file, and a
  directory \<^verbatim>\<open>src\<close> with a source file and a log file; every entry can be read and
  copied, and the calls before the walk succeed.
\<close>

definition readable :: FileOps where
  "readable = \<lparr>statResult = StatOk, copyFileFail = False\<rparr>"

definition exampleChildren :: "FileTree list" where
  "exampleChildren =
     [File ''build.log'' readable,
      Dir ''build'' False False [File ''out.bin'' readable],
      Dir ''src'' False False [File ''main.go'' readable, File ''trace.log'' readable]]"

definition exampleTree :: FileTree where
  "exampleTree = Dir ''project'' False False exampleChildren"

definition examplePrep :: Preparation where
  "examplePrep = \<lparr>mkdirDestinationFail = False, absSourceFail = False, absDestinationFail = False\<rparr>"

definition examplePatterns :: "string list" where
  "examplePatterns = [''*.log'', '' build/ '', ''[a-'', ''   '']"

lemma underDirectory_prefix: "underDirectory dir path \<Longrightarrow> HasPrefix path dir"
  by (simp add: underDirectory_def)

lemma shouldExclude_iff:
  "shouldExclude path patterns
     = (\<exists>pattern \<in> set patterns. globMatches pattern path \<or> namesDirectoryAbove pattern path
          \<or> cutsComponent pattern path)"
proof (induction patterns)
  case Nil
  show ?case by simp
next
  case (Cons pattern patterns)
  show ?case
  proof (cases "TrimSpace pattern = []")
    case True
    then show ?thesis using Cons by (simp add: globMatches_def namesDirectoryAbove_def cutsComponent_def)
  next
    case False
    show ?thesis
    proof (cases "Match (TrimSpace pattern) path")
      case (Inl err)
      then show ?thesis using Cons False
        by (simp add: globMatches_def namesDirectoryAbove_def cutsComponent_def)
    next
      case (Inr matched)
      then show ?thesis using Cons False
        by (cases matched)
          (auto simp: globMatches_def namesDirectoryAbove_def cutsComponent_def Let_def
             dest: underDirectory_prefix)
    qed
  qed
qed

lemma shouldExclude_design:
  "(\<exists>pattern \<in> set patterns. globMatches pattern path \<or> namesDirectoryAbove pattern path)
     \<Longrightarrow> shouldExclude path patterns"
  unfolding shouldExclude_iff by blast

lemma shouldExclude_design_iff:
  "\<not> (\<exists>pattern \<in> set patterns. cutsComponent pattern path) \<Longrightarrow>
     shouldExclude path patterns
       = (\<exists>pattern \<in> set patterns. globMatches pattern path \<or> namesDirectoryAbove pattern path)"
  unfolding shouldExclude_iff by blast

lemma example_entries:
  "entries ''.'' exampleChildren =
     [(''build.log'', [], File ''build.log'' readable),
      (''build'', [], Dir ''build'' False False [File ''out.bin'' readable]),
      (''build/out.bin'', [''build''], File ''out.bin'' readable),
      (''src'', [], Dir ''src'' False False [File ''main.go'' readable, File ''trace.log'' readable]),
      (''src/main.go'', [''src''], File ''main.go'' readable),
      (''src/trace.log'', [''src''], File ''trace.log'' readable)]"
  by (simp add: exampleChildren_def relJoin_def Separator_def)

lemma example_intact: "list_all (intact v) exampleChildren"
  by (simp add: exampleChildren_def readable_def)

lemma example_copy:
  "CopyDirectory directory_go examplePrep exampleTree examplePatterns
     = (None, [''build'', ''src'', ''src/main.go'', ''src/trace.log''])"
  "CopyDirectory part_002 examplePrep exampleTree examplePatterns
     = (None, [''build'', ''src'', ''src/main.go'', ''src/trace.log''])"
  by code_simp+

lemma example_copy_slash:
  "CopyDirectory directory_go examplePrep exampleTree [''build/'']
     = (None, [''build.log'', ''build'', ''src'', ''src/main.go'', ''src/trace.log''])"
  "CopyDirectory part_002 examplePrep exampleTree [''build/'']
     = (None, [''build.log'', ''build'', ''src'', ''src/main.go'', ''src/trace.log''])"
  by code_simp+

lemma example_excluded:
  "shouldExclude ''build/out.bin'' [''build/'']" "\<not> shouldExclude ''build'' [''build/'']"
  "Match (TrimSpace ''build/'') ''build/out.bin'' = Inr False"
  "\<not> globMatches ''build/'' ''build/out.bin''"
  "namesDirectoryAbove ''build/'' ''build/out.bin''"
  by code_simp+

lemma example_patterns:
  "globMatches ''*.log'' ''build.log''"
  "\<not> cutsComponent ''*.log'' ''build.log''" "\<not> cutsComponent '' build/ '' ''build.log''"
  "\<not> cutsComponent ''[a-'' ''build.log''" "\<not> cutsComponent ''   '' ''build.log''"
  "namesDirectoryAbove '' build/ '' ''build/out.bin''"
  "\<not> shouldExclude ''src/trace.log'' examplePatterns"
  "shouldExclude ''build.log'' examplePatterns"
  "shouldExclude ''build/out.bin'' examplePatterns"
  by code_simp+

lemma example_valid: "validNames exampleTree"
  by (simp add: exampleTree_def exampleChildren_def)

lemma example_no_cut: "\<not> (\<exists>pattern \<in> set examplePatterns. cutsComponent pattern ''build/out.bin'')"
  unfolding examplePatterns_def by code_simp

lemma example_in: "(''build/out.bin'', [''build''], File ''out.bin'' readable) \<in> set (entries ''.'' exampleChildren)"
  unfolding example_entries by simp

text \<open>
  The claim C9 as stated fails: under the single pattern \<^verbatim>\<open>build/\<close> the file
  \<^verbatim>\<open>build/out.bin\<close> is excluded and missing from the copy, although the pattern does not
  match its path as a glob, and the directory \<^verbatim>\<open>build\<close> above it is neither matched nor
  excluded, and is copied. The pattern excludes the file as a prefix of its path, the
  test that the source makes "for directories".
\<close>

theorem C9_counterexample:
  "shouldExclude ''build/out.bin'' [''build/'']
   \<and> Match (TrimSpace ''build/'') ''build/out.bin'' = Inr False
   \<and> \<not> globMatches ''build/'' ''build/out.bin''
   \<and> \<not> shouldExclude ''build'' [''build/'']
   \<and> (''build/out.bin'', [''build''], File ''out.bin'' readable) \<in> set (entries ''.'' exampleChildren)
   \<and> ''build/out.bin'' \<notin> set (snd (CopyDirectory directory_go examplePrep exampleTree [''build/'']))
   \<and> ''build'' \<in> set (snd (CopyDirectory directory_go examplePrep exampleTree [''build/'']))
   \<and> ''build/out.bin'' \<notin> set (snd (CopyDirectory part_002 examplePrep exampleTree [''build/'']))
   \<and> ''build'' \<in> set (snd (CopyDirectory part_002 examplePrep exampleTree [''build/'']))"
proof -
  have a: "''build/out.bin'' \<notin> set (snd (CopyDirectory directory_go examplePrep exampleTree [''build/'']))"
    "''build'' \<in> set (snd (CopyDirectory directory_go examplePrep exampleTree [''build/'']))"
    "''build/out.bin'' \<notin> set (snd (CopyDirectory part_002 examplePrep exampleTree [''build/'']))"
    "''build'' \<in> set (snd (CopyDirectory part_002 examplePrep exampleTree [''build/'']))"
    unfolding example_copy_slash by simp_all
  show ?thesis
    by (intro conjI example_excluded(1) example_excluded(3) example_excluded(4) example_excluded(2)
        example_in a)
qed

text \<open>
  Claim C9, amended. An entry is excluded whenever some pattern, trimmed of white space,
  not empty and well-formed, matches its relative path as a glob or names a directory
  above it (the pattern is a literal prefix of the path that ends at a separator); and
  for a path of which no pattern is a literal prefix ending elsewhere, the entry is
  excluded only then. An excluded directory is not entered. In every run, of either
  version of \<^verbatim>\<open>CopyDirectory\<close>, the copy holds only entries of the source that are not
  excluded and lie in no excluded directory; when the source directory and every entry
  can be read and copied, \<^verbatim>\<open>CopyDirectory\<close> returns no error and the copy holds exactly
  these entries.
\<close>

theorem C9_exclusion:
  "(\<not> (\<exists>pattern \<in> set patterns. cutsComponent pattern path) \<longrightarrow>
      shouldExclude path patterns
        = (\<exists>pattern \<in> set patterns. globMatches pattern path \<or> namesDirectoryAbove pattern path))
   \<and> ((\<exists>pattern \<in> set patterns. globMatches pattern path \<or> namesDirectoryAbove pattern path) \<longrightarrow>
        shouldExclude path patterns)
   \<and> (validNames source \<longrightarrow>
        set (snd (CopyDirectory version prep source patterns))
          \<subseteq> (case source of
                Dir name readDirFail mkdirAllFail children \<Rightarrow> kept patterns (entries ''.'' children)
              | _ \<Rightarrow> {}))
   \<and> (\<not> mkdirDestinationFail prep \<and> \<not> absSourceFail prep \<and> \<not> absDestinationFail prep
        \<and> list_all (intact version) nodes \<longrightarrow>
        fst (CopyDirectory version prep (Dir root False mk nodes) patterns) = None
        \<and> set (snd (CopyDirectory version prep (Dir root False mk nodes) patterns))
            = kept patterns (entries ''.'' nodes))"
  using shouldExclude_design_iff[of patterns path] shouldExclude_design[of patterns path]
    CopyDirectory_sound[of source version prep patterns]
    CopyDirectory_intact[of prep version nodes root mk patterns]
  by blast

theorem C9_exclusion_witness:
  "\<not> (\<exists>pattern \<in> set examplePatterns. cutsComponent pattern ''build/out.bin'')
   \<and> shouldExclude ''build/out.bin'' examplePatterns
   \<and> (\<exists>pattern \<in> set examplePatterns.
         globMatches pattern ''build/out.bin'' \<or> namesDirectoryAbove pattern ''build/out.bin'')
   \<and> validNames exampleTree \<and> list_all (intact part_002) exampleChildren
   \<and> CopyDirectory part_002 examplePrep exampleTree examplePatterns
       = (None, [''build'', ''src'', ''src/main.go'', ''src/trace.log''])
   \<and> kept examplePatterns (entries ''.'' exampleChildren)
       = {''build'', ''src'', ''src/main.go'', ''src/trace.log''}"
proof -
  note t = C9_exclusion [of examplePatterns "''build/out.bin''" exampleTree part_002 examplePrep
      exampleChildren "''project''" False]
  have p: "\<not> mkdirDestinationFail examplePrep \<and> \<not> absSourceFail examplePrep
      \<and> \<not> absDestinationFail examplePrep"
    by (simp add: examplePrep_def)
  have x: "shouldExclude ''build/out.bin'' examplePatterns" by (rule example_patterns(9))
  have e: "\<exists>pattern \<in> set examplePatterns.
         globMatches pattern ''build/out.bin'' \<or> namesDirectoryAbove pattern ''build/out.bin''"
    using t example_no_cut x by blast
  have "set (snd (CopyDirectory part_002 examplePrep (Dir ''project'' False False exampleChildren) examplePatterns))
      = kept examplePatterns (entries ''.'' exampleChildren)"
    using t p example_intact[of part_002] by blast
  then have k: "kept examplePatterns (entries ''.'' exampleChildren)
      = {''build'', ''src'', ''src/main.go'', ''src/trace.log''}"
    using example_copy(2) unfolding exampleTree_def by auto
  show ?thesis
    using example_no_cut x e example_valid example_intact[of part_002] example_copy(2) k by blast
qed

section \<open>The backup pipeline (\<^verbatim>\<open>ExecuteBackup\<close> and the loop of \<^verbatim>\<open>main\<close>)\<close>



text \<open>
  What the operations outside the pipeline do in one run of one backup: for each hook
  run, file-system operation, capture and retention call, whether it returns an error.
  \<open>compressIOFail\<close> says whether one of the file operations of the compressor fails
  for a reason of the run (opening, creating, writing).
\<close>

record Outcomes =
  preHooksFail :: bool
  mkdirTempFail :: bool
  copyDirectoryFail :: bool
  executeCommandFail :: bool
  copyFileToTempFail :: bool
  mkdirAllFail :: bool
  compressIOFail :: bool
  applyRetentionFail :: bool
  postHooksFail :: bool










































end
